theory Spec2Isabelle
  imports Complex_Main "HOL-Library.AList" "HOL-Library.Char_ord" "HOL-Library.List_Lexorder"
    "HOL-Library.Multiset"
begin

section \<open>Python values shared by the module\<close>

text \<open>
  The module \<^verbatim>\<open>src/utils.py\<close> is embedded function by function. Python exceptions are
  values of \<open>error\<close>; a function that can raise returns \<open>error + 'a\<close>, and a method that
  mutates its object before it raises returns the mutated object together with
  \<open>error option\<close>. A Python \<^verbatim>\<open>dict\<close> is an association list in insertion order.
\<close>

datatype error =
  ValueError | IndexError | KeyError | ZeroDivisionError | OverflowError | OSError | CvError

definition dict_get :: "('k \<times> 'v) list \<Rightarrow> 'k \<Rightarrow> error + 'v" where
  "dict_get d k = (case map_of d k of None \<Rightarrow> Inl KeyError | Some v \<Rightarrow> Inr v)"

definition dict_set :: "('k \<times> 'v) list \<Rightarrow> 'k \<Rightarrow> 'v \<Rightarrow> ('k \<times> 'v) list" where
  "dict_set d k v = AList.update k v d"

section \<open>Floats\<close>

text \<open>
  A Python float, a numpy \<^verbatim>\<open>float64\<close> and an element of a float tensor are IEEE numbers:
  a finite value, written as the real it denotes, or nan, inf or -inf. The comparisons
  \<^verbatim>\<open>>\<close> and \<^verbatim>\<open><=\<close> are exact, and false whenever an operand is nan. The operations
  that round (addition, division, multiplication) and \<^verbatim>\<open>torch.sigmoid\<close> are parameters,
  the record \<open>float_ops\<close>: what is proved of the code holds for every such arithmetic, the
  IEEE one among them. \<open>float_sum\<close> is the sum as Python adds it, from 0 and from left to
  right, each addition rounded. An int operand of a float operation (the number of
  calls, the number of samples) is converted to the float of the same value, which is
  exact up to \<open>2 ^ 53\<close>. The un-normalization and the quotients of the getters are over
  exact reals: their claims are about exact arithmetic and about which calls raise.
\<close>

datatype np_float = Finite real | NaN | PosInf | NegInf

type_synonym pyfloat = np_float

fun float_gt :: "pyfloat \<Rightarrow> pyfloat \<Rightarrow> bool" where
  "float_gt NaN y = False"
| "float_gt x NaN = False"
| "float_gt (Finite a) (Finite b) = (b < a)"
| "float_gt (Finite a) PosInf = False"
| "float_gt (Finite a) NegInf = True"
| "float_gt PosInf PosInf = False"
| "float_gt PosInf y = True"
| "float_gt NegInf y = False"

definition float_le :: "pyfloat \<Rightarrow> pyfloat \<Rightarrow> bool" where
  "float_le x y = (x \<noteq> NaN \<and> y \<noteq> NaN \<and> \<not> float_gt x y)"

record float_ops =
  float_add :: "pyfloat \<Rightarrow> pyfloat \<Rightarrow> pyfloat"
  float_div :: "pyfloat \<Rightarrow> pyfloat \<Rightarrow> pyfloat"
  float_mul :: "pyfloat \<Rightarrow> pyfloat \<Rightarrow> pyfloat"
  torch_sigmoid :: "pyfloat \<Rightarrow> pyfloat"

definition float_sum :: "float_ops \<Rightarrow> pyfloat list \<Rightarrow> pyfloat" where
  "float_sum ops ls = foldl (float_add ops) (Finite 0) ls"

section \<open>MetricTracker\<close>

text \<open>
  \<^verbatim>\<open>total_loss\<close> and \<^verbatim>\<open>avg_loss\<close> start as the Python int 0, which the first addition
  converts to the float 0.
\<close>

record MetricTracker =
  batches_cnt :: int
  total_loss :: pyfloat
  avg_loss :: pyfloat
  confusion_cnt :: "(string \<times> int) list"
  confusion_arrays :: "(string \<times> pyfloat list) list"
  confusion_paths :: "(string \<times> string list) list"

definition MetricTracker_init :: MetricTracker where
  "MetricTracker_init =
     \<lparr> batches_cnt = 0, total_loss = Finite 0, avg_loss = Finite 0,
       confusion_cnt = [(''tp'', 0), (''tn'', 0), (''fp'', 0), (''fn'', 0)],
       confusion_arrays = [(''tp'', []), (''tn'', []), (''fp'', []), (''fn'', [])],
       confusion_paths = [(''tp'', []), (''tn'', []), (''fp'', []), (''fn'', [])] \<rparr>"

text \<open>The \<^verbatim>\<open>if/elif/else\<close> chain of lines 58-65, on \<^verbatim>\<open>preds_binary[i]\<close> and \<^verbatim>\<open>labels[i]\<close>.\<close>

definition curr_key_of :: "bool \<Rightarrow> int \<Rightarrow> string" where
  "curr_key_of pb l =
     (if \<not> pb \<and> l = 0 then ''tn''
      else if pb \<and> l = 1 then ''tp''
      else if \<not> pb \<and> l = 1 then ''fn''
      else ''fp'')"

text \<open>
  One iteration of the loop of \<^verbatim>\<open>update\<close> (lines 57-70). Each subscript that can raise is a
  branch; what was written to the tracker before the raise stays written.
\<close>

definition update_sample ::
  "pyfloat list \<Rightarrow> bool list \<Rightarrow> int list \<Rightarrow> string list option \<Rightarrow> MetricTracker \<Rightarrow> nat
     \<Rightarrow> MetricTracker \<times> error option" where
  "update_sample preds_sigmoid preds_binary labels paths t i =
     (if length preds_binary \<le> i then (t, Some IndexError)
      else
        (let curr_key = curr_key_of (preds_binary ! i) (labels ! i) in
         (case map_of (confusion_cnt t) curr_key of
            None \<Rightarrow> (t, Some KeyError)
          | Some c \<Rightarrow>
              (let t1 = t\<lparr>confusion_cnt := dict_set (confusion_cnt t) curr_key (c + 1)\<rparr> in
               (case map_of (confusion_arrays t1) curr_key of
                  None \<Rightarrow> (t1, Some KeyError)
                | Some arr \<Rightarrow>
                    (let t2 = t1\<lparr>confusion_arrays :=
                               dict_set (confusion_arrays t1) curr_key
                                 (arr @ [preds_sigmoid ! i])\<rparr> in
                     (case paths of
                        None \<Rightarrow> (t2, None)
                      | Some ps \<Rightarrow>
                          (case map_of (confusion_paths t2) curr_key of
                             None \<Rightarrow> (t2, Some KeyError)
                           | Some pl \<Rightarrow>
                               (if length ps \<le> i then (t2, Some IndexError)
                                else (t2\<lparr>confusion_paths :=
                                         dict_set (confusion_paths t2) curr_key
                                           (pl @ [ps ! i])\<rparr>, None))))))))))"

fun update_loop ::
  "pyfloat list \<Rightarrow> bool list \<Rightarrow> int list \<Rightarrow> string list option \<Rightarrow> MetricTracker \<Rightarrow> nat list
     \<Rightarrow> MetricTracker \<times> error option" where
  "update_loop preds_sigmoid preds_binary labels paths t [] = (t, None)"
| "update_loop preds_sigmoid preds_binary labels paths t (i # rest) =
     (case update_sample preds_sigmoid preds_binary labels paths t i of
        (t', Some e) \<Rightarrow> (t', Some e)
      | (t', None) \<Rightarrow> update_loop preds_sigmoid preds_binary labels paths t' rest)"

text \<open>
  \<^verbatim>\<open>update(loss, preds, labels, paths=None)\<close>, lines 47-70; \<^verbatim>\<open>loss\<close> is the value of
  \<^verbatim>\<open>float(loss)\<close>. \<^verbatim>\<open>preds_binary[i] == 0\<close> is "not \<^verbatim>\<open>preds_sigmoid[i] > 0.5\<close>", which
  also holds of a nan. A float divided by the int 0 raises \<^verbatim>\<open>ZeroDivisionError\<close>.
\<close>

definition update ::
  "float_ops \<Rightarrow> MetricTracker \<Rightarrow> pyfloat \<Rightarrow> pyfloat list \<Rightarrow> int list \<Rightarrow> string list option
     \<Rightarrow> MetricTracker \<times> error option" where
  "update ops t loss preds labels paths =
     (let t1 = t\<lparr>batches_cnt := batches_cnt t + 1\<rparr>;
          t2 = t1\<lparr>total_loss := float_add ops (total_loss t1) loss\<rparr>
      in if batches_cnt t2 = 0 then (t2, Some ZeroDivisionError)
         else
           let t3 = t2\<lparr>avg_loss :=
                       float_div ops (total_loss t2) (Finite (real_of_int (batches_cnt t2)))\<rparr>;
               preds_sigmoid = map (torch_sigmoid ops) preds;
               preds_binary = map (\<lambda>p. float_gt p (Finite 0.5)) preds_sigmoid
           in update_loop preds_sigmoid preds_binary labels paths t3 [0..<length labels])"

text \<open>
  A call of \<^verbatim>\<open>update\<close> is its argument tuple. \<open>updates\<close> makes the calls in order on one
  tracker object; the object persists across a call that raised.
\<close>

type_synonym call = "pyfloat \<times> pyfloat list \<times> int list \<times> string list option"

fun updates :: "float_ops \<Rightarrow> MetricTracker \<Rightarrow> call list \<Rightarrow> MetricTracker" where
  "updates ops t [] = t"
| "updates ops t ((loss, preds, labels, paths) # cs) =
     updates ops (fst (update ops t loss preds labels paths)) cs"

text \<open>
  What every tracker built by \<^verbatim>\<open>__init__\<close> and changed only by \<^verbatim>\<open>update\<close> satisfies: the three
  dicts have exactly the four keys, and the batch counter is not negative.
\<close>

definition confusion_keys :: "string list" where
  "confusion_keys = [''tp'', ''tn'', ''fp'', ''fn'']"

definition tracker_inv :: "MetricTracker \<Rightarrow> bool" where
  "tracker_inv t =
     (0 \<le> batches_cnt t
      \<and> map fst (confusion_cnt t) = confusion_keys
      \<and> map fst (confusion_arrays t) = confusion_keys
      \<and> map fst (confusion_paths t) = confusion_keys)"

text \<open>
  The key that the loop of \<^verbatim>\<open>update\<close> computes for sample i of a batch, and the calls whose
  arguments are parallel: \<^verbatim>\<open>preds\<close>, and \<^verbatim>\<open>paths\<close> when given, have an entry for every label.
\<close>

definition bucket_of :: "float_ops \<Rightarrow> pyfloat list \<Rightarrow> int list \<Rightarrow> nat \<Rightarrow> string" where
  "bucket_of ops preds labels i =
     curr_key_of (float_gt (torch_sigmoid ops (preds ! i)) (Finite 0.5)) (labels ! i)"

fun wf_call :: "call \<Rightarrow> bool" where
  "wf_call (loss, preds, labels, paths) =
     (length labels \<le> length preds
      \<and> (case paths of None \<Rightarrow> True | Some ps \<Rightarrow> length labels \<le> length ps))"

fun call_labels :: "call \<Rightarrow> int list" where
  "call_labels (loss, preds, labels, paths) = labels"

fun call_paths :: "call \<Rightarrow> string list option" where
  "call_paths (loss, preds, labels, paths) = paths"







section \<open>UnNormalize\<close>

text \<open>
  A tensor of size (C, H, W) is the list of its C channels, each the list of its values.
  \<^verbatim>\<open>zip(tensor, self.mean, self.std)\<close> stops at the shortest of the three; a channel beyond
  it is left as it is. \<open>Normalize_call\<close> is the normalize code that the comment on line 31
  quotes, \<^verbatim>\<open>t.sub_(m).div_(s)\<close>, over the same \<^verbatim>\<open>zip\<close>.
\<close>

record UnNormalize =
  mean :: "real list"
  std :: "real list"

fun unnormalize_loop :: "real list list \<Rightarrow> real list \<Rightarrow> real list \<Rightarrow> real list list" where
  "unnormalize_loop (t # tensor) (m # ms) (s # ss) =
     map (\<lambda>x. x * s + m) t # unnormalize_loop tensor ms ss"
| "unnormalize_loop tensor ms ss = tensor"

definition UnNormalize_call :: "UnNormalize \<Rightarrow> real list list \<Rightarrow> real list list" where
  "UnNormalize_call self tensor = unnormalize_loop tensor (mean self) (std self)"

fun normalize_loop :: "real list list \<Rightarrow> real list \<Rightarrow> real list \<Rightarrow> real list list" where
  "normalize_loop (t # tensor) (m # ms) (s # ss) =
     map (\<lambda>x. (x - m) / s) t # normalize_loop tensor ms ss"
| "normalize_loop tensor ms ss = tensor"

definition Normalize_call :: "UnNormalize \<Rightarrow> real list list \<Rightarrow> real list list" where
  "Normalize_call self tensor = normalize_loop tensor (mean self) (std self)"

section \<open>numpy's random choice without replacement\<close>

text \<open>
  \<^verbatim>\<open>np.random.choice(a, size, replace=False)\<close> on a one-dimensional \<^verbatim>\<open>a\<close>: it raises
  \<^verbatim>\<open>ValueError\<close> when \<^verbatim>\<open>a\<close> is empty and samples are asked for, when \<^verbatim>\<open>size\<close> exceeds the
  population, and when \<^verbatim>\<open>size\<close> is negative; otherwise it returns
  \<^verbatim>\<open>a[permutation(len(a))[:size]]\<close>. The generator is a parameter: a state \<open>'g\<close> and a
  function that draws a permutation of \<open>[0..<n]\<close> and returns the next state.
\<close>

type_synonym 'g rng = "'g \<Rightarrow> nat \<Rightarrow> nat list \<times> 'g"

definition valid_rng :: "'g rng \<Rightarrow> bool" where
  "valid_rng permutation = (\<forall>g n. mset (fst (permutation g n)) = mset [0..<n])"

definition random_choice :: "'g rng \<Rightarrow> 'g \<Rightarrow> 'a list \<Rightarrow> int \<Rightarrow> error + ('a list \<times> 'g)" where
  "random_choice permutation g a sz =
     (if a = [] \<and> sz \<noteq> 0 then Inl ValueError
      else if int (length a) < sz then Inl ValueError
      else if sz < 0 then Inl ValueError
      else case permutation g (length a) of
             (idx, g') \<Rightarrow> Inr (map (\<lambda>j. a ! j) (take (nat sz) idx), g'))"

section \<open>ECOLDataset\<close>

text \<open>
  The file system is a parameter: \<^verbatim>\<open>os.path.abspath\<close> and \<^verbatim>\<open>os.listdir\<close>, the latter
  raising \<^verbatim>\<open>OSError\<close> on a path that is no directory. \<^verbatim>\<open>os.path.join\<close> is the POSIX one.
  Images are values of a type \<open>'img\<close>; \<^verbatim>\<open>cv2.imread\<close> (which returns \<^verbatim>\<open>None\<close> for a file it
  cannot decode), \<^verbatim>\<open>cv2.cvtColor\<close> and the transforms are parameters.
\<close>

record filesystem =
  abspath :: "string \<Rightarrow> string"
  listdir :: "string \<Rightarrow> error + string list"

definition os_path_join :: "string \<Rightarrow> string \<Rightarrow> string" where
  "os_path_join a b =
     (if take 1 b = ''/'' then b
      else if a = [] \<or> last a = CHR ''/'' then a @ b
      else a @ ''/'' @ b)"

record 'img ECOLDataset =
  root_dir :: string
  subdirs :: "string list"
  dir_label_map :: "(string \<times> int) list"
  samples :: "(string \<times> int) list"
  len :: nat
  transform :: "'img \<Rightarrow> error + 'img"

text \<open>Lines 132-134: \<^verbatim>\<open>for i, subdir in enumerate(self.subdirs): dir_label_map[subdir] = i\<close>.\<close>

definition build_dir_label_map :: "string list \<Rightarrow> (string \<times> int) list" where
  "build_dir_label_map sds =
     fold (\<lambda>(i, subdir) m. dict_set m subdir (int i)) (enumerate 0 sds) []"

text \<open>Lines 141-143, the inner loop over the names listed in one subdirectory.\<close>

fun collect_imgs ::
  "(string \<times> int) list \<Rightarrow> string \<Rightarrow> string \<Rightarrow> string list \<Rightarrow> (string \<times> int) list
     \<Rightarrow> error + (string \<times> int) list" where
  "collect_imgs m subdir subdir_path [] acc = Inr acc"
| "collect_imgs m subdir subdir_path (img_name # rest) acc =
     (case dict_get m subdir of
        Inl e \<Rightarrow> Inl e
      | Inr l \<Rightarrow>
          collect_imgs m subdir subdir_path rest (acc @ [(os_path_join subdir_path img_name, l)]))"

text \<open>Lines 138-143, the outer loop over the sorted subdirectories.\<close>

fun collect_samples ::
  "filesystem \<Rightarrow> (string \<times> int) list \<Rightarrow> string \<Rightarrow> string list \<Rightarrow> (string \<times> int) list
     \<Rightarrow> error + (string \<times> int) list" where
  "collect_samples fs m rootd [] acc = Inr acc"
| "collect_samples fs m rootd (subdir # rest) acc =
     (let subdir_path = os_path_join rootd subdir in
      case listdir fs subdir_path of
        Inl e \<Rightarrow> Inl e
      | Inr names \<Rightarrow>
          (case collect_imgs m subdir subdir_path names acc of
             Inl e \<Rightarrow> Inl e
           | Inr acc' \<Rightarrow> collect_samples fs m rootd rest acc'))"

text \<open>
  \<^verbatim>\<open>ECOLDataset.__init__(root_dir, transform=None)\<close>; \<open>to_tensor\<close> is the default
  \<^verbatim>\<open>transforms.Compose([transforms.ToTensor()])\<close>.
\<close>

definition ECOLDataset_init ::
  "filesystem \<Rightarrow> ('img \<Rightarrow> error + 'img) \<Rightarrow> string \<Rightarrow> ('img \<Rightarrow> error + 'img) option
     \<Rightarrow> error + 'img ECOLDataset" where
  "ECOLDataset_init fs to_tensor rd tr =
     (let rootd = abspath fs rd in
      (case listdir fs rootd of
         Inl e \<Rightarrow> Inl e
       | Inr listing \<Rightarrow>
           (let sds = sort listing;
                m = build_dir_label_map sds
            in (case collect_samples fs m rootd sds [] of
                  Inl e \<Rightarrow> Inl e
                | Inr smp \<Rightarrow>
                    Inr \<lparr> root_dir = rootd, subdirs = sds, dir_label_map = m, samples = smp,
                          len = length smp,
                          transform = (case tr of Some f \<Rightarrow> f | None \<Rightarrow> to_tensor) \<rparr>))))"

text \<open>The names \<^verbatim>\<open>os.listdir\<close> gives for a path, none where it raises.\<close>

definition listed :: "filesystem \<Rightarrow> string \<Rightarrow> string list" where
  "listed fs p = (case listdir fs p of Inl e \<Rightarrow> [] | Inr names \<Rightarrow> names)"

definition ECOLDataset_len :: "'img ECOLDataset \<Rightarrow> nat" where
  "ECOLDataset_len self = len self"

text \<open>A Python list subscript: a negative index counts from the end.\<close>

definition py_index :: "'a list \<Rightarrow> int \<Rightarrow> error + 'a" where
  "py_index xs idx =
     (if 0 \<le> idx
      then (if idx < int (length xs) then Inr (xs ! nat idx) else Inl IndexError)
      else (if - int (length xs) \<le> idx then Inr (xs ! nat (int (length xs) + idx))
            else Inl IndexError))"

definition ECOLDataset_getitem ::
  "(string \<Rightarrow> 'img option) \<Rightarrow> ('img \<Rightarrow> 'img) \<Rightarrow> 'img ECOLDataset \<Rightarrow> int
     \<Rightarrow> error + ('img \<times> int \<times> string)" where
  "ECOLDataset_getitem imread cvtColor self idx =
     (case py_index (samples self) idx of
        Inl e \<Rightarrow> Inl e
      | Inr (img_path, label) \<Rightarrow>
          (case imread img_path of
             None \<Rightarrow> Inl CvError
           | Some img \<Rightarrow>
               (case transform self (cvtColor img) of
                  Inl e \<Rightarrow> Inl e
                | Inr img' \<Rightarrow> Inr (img', label, img_path))))"

section \<open>Balanced indices and the train/validation split\<close>

text \<open>The two list comprehensions of lines 107-112.\<close>

definition positive_indices :: "'img ECOLDataset \<Rightarrow> nat list" where
  "positive_indices ds = filter (\<lambda>i. snd (samples ds ! i) = 1) [0..<length (samples ds)]"

definition negative_indices :: "'img ECOLDataset \<Rightarrow> nat list" where
  "negative_indices ds = filter (\<lambda>i. snd (samples ds ! i) = 0) [0..<length (samples ds)]"

definition get_balanced_indices ::
  "'g rng \<Rightarrow> 'g \<Rightarrow> 'img ECOLDataset \<Rightarrow> error + (nat list \<times> 'g)" where
  "get_balanced_indices permutation g ds =
     (case random_choice permutation g (negative_indices ds)
             (int (length (positive_indices ds))) of
        Inl e \<Rightarrow> Inl e
      | Inr (negative_indices_balanced, g') \<Rightarrow>
          Inr (positive_indices ds @ negative_indices_balanced, g'))"

text \<open>Python slices \<^verbatim>\<open>xs[:k]\<close> and \<^verbatim>\<open>xs[k:]\<close> for any integer \<^verbatim>\<open>k\<close>.\<close>

definition slice_bound :: "nat \<Rightarrow> int \<Rightarrow> nat" where
  "slice_bound n k = (if k < 0 then nat (max 0 (int n + k)) else min n (nat k))"

definition slice_to :: "'a list \<Rightarrow> int \<Rightarrow> 'a list" where
  "slice_to xs k = take (slice_bound (length xs) k) xs"

definition slice_from :: "'a list \<Rightarrow> int \<Rightarrow> 'a list" where
  "slice_from xs k = drop (slice_bound (length xs) k) xs"

text \<open>
  Lines 197-214 of \<^verbatim>\<open>load_dataset_ECOL_labeled\<close>: the selected index sequence and the
  \<^verbatim>\<open>dataset_size\<close> in force after them.
\<close>

definition select_indices ::
  "'g rng \<Rightarrow> 'g \<Rightarrow> 'img ECOLDataset \<Rightarrow> bool \<Rightarrow> bool \<Rightarrow> int option
     \<Rightarrow> error + (nat list \<times> int \<times> 'g)" where
  "select_indices permutation g ds shuffle balance dataset_size =
     (let size0 = (case dataset_size of None \<Rightarrow> int (ECOLDataset_len ds) | Some n \<Rightarrow> n) in
      case (if balance
            then (case get_balanced_indices permutation g ds of
                    Inl e \<Rightarrow> Inl e
                  | Inr (dataset_indices, g1) \<Rightarrow>
                      Inr (dataset_indices,
                           if int (length dataset_indices) < size0
                           then int (length dataset_indices) else size0, g1))
            else Inr ([0..<ECOLDataset_len ds], size0, g)) of
        Inl e \<Rightarrow> Inl e
      | Inr (dataset_indices, size1, g1) \<Rightarrow>
          if shuffle
          then (case random_choice permutation g1 dataset_indices size1 of
                  Inl e \<Rightarrow> Inl e
                | Inr (sel, g2) \<Rightarrow> Inr (sel, size1, g2))
          else Inr (slice_to dataset_indices size1, size1, g1))"

text \<open>
  A \<^verbatim>\<open>DataLoader\<close> is the record of what it was built from; \<open>sampler_indices\<close> is the
  index sequence given to its \<^verbatim>\<open>SubsetRandomSampler\<close>.
\<close>

record 'img DataLoader =
  loader_dataset :: "'img ECOLDataset"
  loader_batch_size :: int
  sampler_indices :: "nat list"

text \<open>
  Line 216, \<^verbatim>\<open>int(np.floor(test_size * dataset_size))\<close>: the product is the rounded float
  product, \<^verbatim>\<open>np.floor\<close> is exact, and \<^verbatim>\<open>int\<close> raises \<^verbatim>\<open>ValueError\<close> on nan and
  \<^verbatim>\<open>OverflowError\<close> on an infinity.
\<close>

definition val_split_index_of :: "float_ops \<Rightarrow> pyfloat \<Rightarrow> int \<Rightarrow> error + int" where
  "val_split_index_of ops test_size dataset_size =
     (case float_mul ops test_size (Finite (real_of_int dataset_size)) of
        Finite r \<Rightarrow> Inr \<lfloor>r\<rfloor>
      | NaN \<Rightarrow> Inl ValueError
      | PosInf \<Rightarrow> Inl OverflowError
      | NegInf \<Rightarrow> Inl OverflowError)"

text \<open>
  What rounding to nearest gives for a fraction of a count up to \<open>2 ^ 53\<close> (such a count
  is a float, so that the conversion of the int operand is exact): the exact product
  lies between 0 and the count, and rounding is monotone, so the rounded product is
  finite and lies between them too.
\<close>

definition mul_within_bounds :: "float_ops \<Rightarrow> bool" where
  "mul_within_bounds ops =
     (\<forall>t n. 0 \<le> t \<and> t \<le> 1 \<and> 0 \<le> n \<and> n \<le> 2 ^ 53 \<longrightarrow>
        (\<exists>r. float_mul ops (Finite t) (Finite (real_of_int n)) = Finite r
             \<and> 0 \<le> r \<and> r \<le> real_of_int n))"

text \<open>
  \<^verbatim>\<open>load_dataset_ECOL_labeled\<close>; \<open>default_transform\<close> is the \<^verbatim>\<open>Compose\<close> of lines 187-192 as
  a function of \<^verbatim>\<open>img_size\<close>. The result is \<^verbatim>\<open>(train_loader, val_loader)\<close> and the state of
  the generator.
\<close>

definition load_dataset_ECOL_labeled ::
  "filesystem \<Rightarrow> ('img \<Rightarrow> error + 'img) \<Rightarrow> ('sz \<Rightarrow> 'img \<Rightarrow> error + 'img) \<Rightarrow> float_ops
     \<Rightarrow> 'g rng \<Rightarrow> 'g \<Rightarrow> string \<Rightarrow> 'sz \<Rightarrow> int \<Rightarrow> bool \<Rightarrow> bool
     \<Rightarrow> ('img \<Rightarrow> error + 'img) option \<Rightarrow> int option \<Rightarrow> pyfloat
     \<Rightarrow> error + ('img DataLoader \<times> 'img DataLoader \<times> 'g)" where
  "load_dataset_ECOL_labeled fs to_tensor default_transform ops permutation g
       rd img_size batch_size shuffle balance tr dataset_size test_size =
     (let tr' = (case tr of None \<Rightarrow> default_transform img_size | Some f \<Rightarrow> f) in
      (case ECOLDataset_init fs to_tensor rd (Some tr') of
         Inl e \<Rightarrow> Inl e
       | Inr ds \<Rightarrow>
           (case select_indices permutation g ds shuffle balance dataset_size of
              Inl e \<Rightarrow> Inl e
            | Inr (dataset_indices, size1, g') \<Rightarrow>
                (case val_split_index_of ops test_size size1 of
                   Inl e \<Rightarrow> Inl e
                 | Inr val_split_index \<Rightarrow>
                     (let train_indices = slice_from dataset_indices val_split_index;
                          val_indices = slice_to dataset_indices val_split_index
                      in Inr (\<lparr> loader_dataset = ds, loader_batch_size = batch_size,
                                 sampler_indices = train_indices \<rparr>,
                              \<lparr> loader_dataset = ds, loader_batch_size = batch_size,
                                 sampler_indices = val_indices \<rparr>, g'))))))"

section \<open>Example inputs\<close>

text \<open>
  A file system with two dataset roots, each with the class directories \<^verbatim>\<open>neg\<close> and
  \<^verbatim>\<open>pos\<close> (listed in the other order): \<^verbatim>\<open>/d\<close> has two negatives and one positive,
  \<^verbatim>\<open>/e\<close> one negative and two positives. The example generator draws the reversed
  order and counts its draws.
\<close>

definition demo_fs :: filesystem where
  "demo_fs =
     \<lparr> abspath = (\<lambda>p. p),
       listdir = (\<lambda>p.
         if p = ''/d'' then Inr [''pos'', ''neg'']
         else if p = ''/d/neg'' then Inr [''a.png'', ''b.png'']
         else if p = ''/d/pos'' then Inr [''c.png'']
         else if p = ''/e'' then Inr [''pos'', ''neg'']
         else if p = ''/e/neg'' then Inr [''a.png'']
         else if p = ''/e/pos'' then Inr [''b.png'', ''c.png'']
         else Inl OSError) \<rparr>"

definition demo_rng :: "nat rng" where
  "demo_rng g n = (rev [0..<n], Suc g)"

definition demo_dataset :: "string \<Rightarrow> error + nat ECOLDataset" where
  "demo_dataset rd = ECOLDataset_init demo_fs Inr rd None"

text \<open>The datasets that \<^verbatim>\<open>ECOLDataset\<close> builds over the two roots (see \<open>demo_dataset_d\<close>).\<close>

definition demo_d :: "nat ECOLDataset" where
  "demo_d =
     \<lparr> root_dir = ''/d'', subdirs = [''neg'', ''pos''],
       dir_label_map = [(''neg'', 0), (''pos'', 1)],
       samples = [(''/d/neg/a.png'', 0), (''/d/neg/b.png'', 0), (''/d/pos/c.png'', 1)],
       len = 3, transform = Inr \<rparr>"

definition demo_e :: "nat ECOLDataset" where
  "demo_e =
     \<lparr> root_dir = ''/e'', subdirs = [''neg'', ''pos''],
       dir_label_map = [(''neg'', 0), (''pos'', 1)],
       samples = [(''/e/neg/a.png'', 0), (''/e/pos/b.png'', 1), (''/e/pos/c.png'', 1)],
       len = 3, transform = Inr \<rparr>"

text \<open>
  A stand-in for the sigmoid in examples: increasing, with values in (0, 1), and above
  1/2 exactly on positive arguments; nan at nan, as \<^verbatim>\<open>torch.sigmoid\<close> is. The example
  arithmetic is exact on finite values, as the IEEE operations are wherever the exact
  result is a float (it is in every example below), and nan otherwise.
\<close>

definition demo_sigmoid :: "real \<Rightarrow> real" where
  "demo_sigmoid x = (1 + x / (1 + \<bar>x\<bar>)) / 2"

definition lift_exact :: "(real \<Rightarrow> real \<Rightarrow> real) \<Rightarrow> pyfloat \<Rightarrow> pyfloat \<Rightarrow> pyfloat" where
  "lift_exact f x y = (case x of
                         Finite a \<Rightarrow> (case y of Finite b \<Rightarrow> Finite (f a b) | _ \<Rightarrow> NaN)
                       | _ \<Rightarrow> NaN)"

definition demo_ops :: float_ops where
  "demo_ops =
     \<lparr> float_add = lift_exact (\<lambda>a b. a + b),
       float_div = lift_exact (\<lambda>a b. a / b),
       float_mul = lift_exact (\<lambda>a b. a * b),
       torch_sigmoid = (\<lambda>x. case x of Finite r \<Rightarrow> Finite (demo_sigmoid r) | NaN \<Rightarrow> NaN
                              | PosInf \<Rightarrow> Finite 1 | NegInf \<Rightarrow> Finite 0) \<rparr>"

definition demo_call :: call where
  "demo_call = (Finite (1 / 2), [Finite 1, Finite (- 1), Finite 3, Finite (- 3)], [1, 0, 0, 1],
                Some [''a.png'', ''b.png'', ''c.png'', ''d.png''])"

text \<open>
  \<^verbatim>\<open>load_dataset_ECOL_labeled('/d', 224, 8, shuffle=sh, balance=bal, dataset_size=dsz,
  test_size=tsz)\<close> on the example file system, with transforms that leave the image as
  it is.
\<close>

definition demo_load ::
  "bool \<Rightarrow> bool \<Rightarrow> int option \<Rightarrow> pyfloat
     \<Rightarrow> error + (nat DataLoader \<times> nat DataLoader \<times> nat)" where
  "demo_load sh bal dsz tsz =
     load_dataset_ECOL_labeled demo_fs Inr (\<lambda>sz::nat. Inr) demo_ops demo_rng 0 ''/d'' 224 8
       sh bal None dsz tsz"

section \<open>Running loss\<close>

lemma update_sample_loss_fields:
  "update_sample ps pb ls paths t i = (t', e) \<Longrightarrow>
     batches_cnt t' = batches_cnt t \<and> total_loss t' = total_loss t \<and> avg_loss t' = avg_loss t"
  by (auto simp: update_sample_def Let_def split: if_splits option.splits)

lemma update_loop_loss_fields:
  "update_loop ps pb ls paths t is = (t', e) \<Longrightarrow>
     batches_cnt t' = batches_cnt t \<and> total_loss t' = total_loss t \<and> avg_loss t' = avg_loss t"
proof (induction "is" arbitrary: t)
  case Nil
  then show ?case by simp
next
  case (Cons i rest)
  obtain t1 e1 where s: "update_sample ps pb ls paths t i = (t1, e1)"
    by (cases "update_sample ps pb ls paths t i")
  note f = update_sample_loss_fields [OF s]
  show ?case
  proof (cases e1)
    case None
    with Cons.prems s have "update_loop ps pb ls paths t1 rest = (t', e)" by simp
    from Cons.IH [OF this] f show ?thesis by simp
  next
    case (Some a)
    with Cons.prems s have "t' = t1" by simp
    with f show ?thesis by simp
  qed
qed

lemma update_loss_fields:
  assumes "0 \<le> batches_cnt t"
  shows "batches_cnt (fst (update ops t loss preds labels paths)) = batches_cnt t + 1
       \<and> total_loss (fst (update ops t loss preds labels paths))
           = float_add ops (total_loss t) loss
       \<and> avg_loss (fst (update ops t loss preds labels paths))
           = float_div ops (float_add ops (total_loss t) loss)
               (Finite (real_of_int (batches_cnt t + 1)))"
proof -
  let ?t3 = "t\<lparr>batches_cnt := batches_cnt t + 1,
                total_loss := float_add ops (total_loss t) loss,
                avg_loss := float_div ops (float_add ops (total_loss t) loss)
                              (Finite (real_of_int (batches_cnt t + 1)))\<rparr>"
  from assms have nz: "batches_cnt t + 1 \<noteq> 0" by arith
  then have "\<exists>ps pb. update ops t loss preds labels paths
               = update_loop ps pb labels paths ?t3 [0..<length labels]"
    unfolding update_def Let_def by (intro exI) simp
  then obtain ps pb where
    u: "update ops t loss preds labels paths
          = update_loop ps pb labels paths ?t3 [0..<length labels]"
    by blast
  let ?r = "update_loop ps pb labels paths ?t3 [0..<length labels]"
  have "?r = (fst ?r, snd ?r)" by simp
  from update_loop_loss_fields [OF this] u show ?thesis by simp
qed

lemma updates_loss_fields:
  "0 \<le> batches_cnt t \<Longrightarrow>
     batches_cnt (updates ops t cs) = batches_cnt t + int (length cs)
   \<and> total_loss (updates ops t cs) = foldl (float_add ops) (total_loss t) (map fst cs)
   \<and> (cs \<noteq> [] \<longrightarrow> avg_loss (updates ops t cs)
          = float_div ops (foldl (float_add ops) (total_loss t) (map fst cs))
              (Finite (real_of_int (batches_cnt t + int (length cs)))))
   \<and> (cs = [] \<longrightarrow> avg_loss (updates ops t cs) = avg_loss t)"
proof (induction cs arbitrary: t)
  case Nil
  then show ?case by simp
next
  case (Cons c cs)
  obtain loss preds labels paths where c: "c = (loss, preds, labels, paths)"
    by (cases c) auto
  let ?t = "fst (update ops t loss preds labels paths)"
  note f = update_loss_fields [OF Cons.prems, of ops loss preds labels paths]
  from f Cons.prems have nn: "0 \<le> batches_cnt ?t" by simp
  note ih = Cons.IH [OF nn]
  show ?case
  proof (cases "cs = []")
    case True
    with f c show ?thesis by simp
  next
    case False
    with ih f c show ?thesis by (simp add: add.assoc)
  qed
qed

text \<open>
  C4. After the calls \<open>cs\<close> (n of them, with losses \<open>map fst cs\<close>) on a fresh tracker,
  \<open>batches_cnt\<close> is n, \<open>total_loss\<close> is the sum of the losses as Python adds floats, from
  0 and from left to right with every addition rounded (\<open>float_sum\<close>), and \<open>avg_loss\<close> is
  the float quotient of that sum by n (for n = 0 it is still the initial 0). This holds
  for every float arithmetic \<open>ops\<close>, and whether or not a call raised in its per-sample
  loop, since the loss fields are written before the loop.
\<close>

theorem running_loss_after_n_updates:
  "batches_cnt (updates ops MetricTracker_init cs) = int (length cs)
   \<and> total_loss (updates ops MetricTracker_init cs) = float_sum ops (map fst cs)
   \<and> (cs \<noteq> [] \<longrightarrow> avg_loss (updates ops MetricTracker_init cs)
          = float_div ops (float_sum ops (map fst cs)) (Finite (real (length cs))))
   \<and> (cs = [] \<longrightarrow> avg_loss (updates ops MetricTracker_init cs) = Finite 0)"
proof -
  have "0 \<le> batches_cnt MetricTracker_init" by (simp add: MetricTracker_init_def)
  from updates_loss_fields [OF this, of ops cs] show ?thesis
    by (simp add: MetricTracker_init_def float_sum_def)
qed

theorem running_loss_after_n_updates_witness:
  "batches_cnt (updates demo_ops MetricTracker_init
      [(Finite (1 / 2), [Finite 2], [1], None),
       (Finite (3 / 2), [Finite (- 1)], [0], Some [''a.png''])]) = 2
   \<and> total_loss (updates demo_ops MetricTracker_init
      [(Finite (1 / 2), [Finite 2], [1], None),
       (Finite (3 / 2), [Finite (- 1)], [0], Some [''a.png''])]) = Finite 2
   \<and> avg_loss (updates demo_ops MetricTracker_init
      [(Finite (1 / 2), [Finite 2], [1], None),
       (Finite (3 / 2), [Finite (- 1)], [0], Some [''a.png''])]) = Finite 1
   \<and> float_sum demo_ops [Finite (1 / 2), Finite (3 / 2)] = Finite 2"
  using running_loss_after_n_updates [of demo_ops
      "[(Finite (1 / 2), [Finite 2], [1], None),
        (Finite (3 / 2), [Finite (- 1)], [0], Some [''a.png''])]"]
  by (simp add: float_sum_def demo_ops_def lift_exact_def)

section \<open>The metric getters\<close>




section \<open>UnNormalize inverts the normalization\<close>

lemma normalize_loop_length: "length (normalize_loop t ms ss) = length t"
  by (induction t ms ss rule: normalize_loop.induct) auto

lemma unnormalize_loop_nth:
  "c < length t \<Longrightarrow> c < length ms \<Longrightarrow> c < length ss \<Longrightarrow>
     unnormalize_loop t ms ss ! c = map (\<lambda>x. x * ss ! c + ms ! c) (t ! c)"
  by (induction t ms ss arbitrary: c rule: unnormalize_loop.induct)
     (auto simp: nth_Cons split: nat.splits)

lemma normalize_loop_nth:
  "c < length t \<Longrightarrow> c < length ms \<Longrightarrow> c < length ss \<Longrightarrow>
     normalize_loop t ms ss ! c = map (\<lambda>x. (x - ms ! c) / ss ! c) (t ! c)"
  by (induction t ms ss arbitrary: c rule: normalize_loop.induct)
     (auto simp: nth_Cons split: nat.splits)

text \<open>
  C6. On a channel c covered by the tensor, \<^verbatim>\<open>mean\<close> and \<^verbatim>\<open>std\<close>, \<^verbatim>\<open>UnNormalize\<close> maps
  each value x to x * std[c] + mean[c]; and where std[c] is not 0 (so that the
  normalization (x - mean[c]) / std[c] is defined), normalizing and then un-normalizing
  gives the channel back, over exact arithmetic.
\<close>

theorem unnormalize_inverts_normalize:
  assumes "c < length tensor" and "c < length (mean self)" and "c < length (std self)"
  shows "UnNormalize_call self tensor ! c
           = map (\<lambda>x. x * std self ! c + mean self ! c) (tensor ! c)
       \<and> (std self ! c \<noteq> 0 \<longrightarrow>
            UnNormalize_call self (Normalize_call self tensor) ! c = tensor ! c)"
proof -
  have n: "c < length (Normalize_call self tensor)"
    using assms by (simp add: Normalize_call_def normalize_loop_length)
  have "std self ! c \<noteq> 0 \<Longrightarrow> map (\<lambda>x. x * std self ! c + mean self ! c)
          (map (\<lambda>x. (x - mean self ! c) / std self ! c) (tensor ! c)) = tensor ! c"
    by (simp add: map_idI)
  with assms n show ?thesis
    by (simp add: UnNormalize_call_def Normalize_call_def unnormalize_loop_nth normalize_loop_nth
        normalize_loop_length)
qed

theorem unnormalize_inverts_normalize_witness:
  "UnNormalize_call \<lparr>mean = [1, 2], std = [2, 4]\<rparr>
     (Normalize_call \<lparr>mean = [1, 2], std = [2, 4]\<rparr> [[3, 5], [6, 10], [7]]) ! 1 = [6, 10]
   \<and> UnNormalize_call \<lparr>mean = [1, 2], std = [2, 4]\<rparr> [[3, 5], [6, 10], [7]] ! 1 = [26, 42]"
  using unnormalize_inverts_normalize
    [of 1 "[[3, 5], [6, 10], [7]]" "\<lparr>mean = [1, 2], std = [2, 4]\<rparr>"]
  by simp

section \<open>The example inputs, evaluated\<close>

lemma demo_dataset_d: "demo_dataset ''/d'' = Inr demo_d"
  by (simp add: demo_dataset_def demo_d_def ECOLDataset_init_def demo_fs_def
      build_dir_label_map_def dict_set_def dict_get_def os_path_join_def Let_def)

lemma demo_dataset_e: "demo_dataset ''/e'' = Inr demo_e"
  by (simp add: demo_dataset_def demo_e_def ECOLDataset_init_def demo_fs_def
      build_dir_label_map_def dict_set_def dict_get_def os_path_join_def Let_def)

lemma valid_demo_rng: "valid_rng demo_rng"
  by (simp add: valid_rng_def demo_rng_def)

section \<open>Class-balanced index selection\<close>

lemma random_choice_isl:
  "isl (random_choice p g a sz) \<longleftrightarrow> sz < 0 \<or> int (length a) < sz"
  by (auto simp: random_choice_def split: prod.splits)

lemma random_choice_error:
  "isl (random_choice p g a sz) \<Longrightarrow> random_choice p g a sz = Inl ValueError"
  by (auto simp: random_choice_def split: prod.splits if_splits)

lemma random_choice_Inr:
  assumes r: "random_choice p g a sz = Inr (r, g')" and v: "valid_rng p"
  shows "0 \<le> sz \<and> sz \<le> int (length a) \<and> length r = nat sz \<and> set r \<subseteq> set a
         \<and> (distinct a \<longrightarrow> distinct r)"
proof -
  obtain idx g1 where pg: "p g (length a) = (idx, g1)" by (cases "p g (length a)")
  from v pg have m: "mset idx = mset [0..<length a]"
    unfolding valid_rng_def by (metis fst_conv)
  from r pg have b: "0 \<le> sz" "sz \<le> int (length a)"
    and req: "r = map (\<lambda>j. a ! j) (take (nat sz) idx)"
    by (auto simp: random_choice_def split: if_splits)
  from m have len: "length idx = length a" by (metis length_upt mset_eq_length minus_nat.diff_0)
  from m have di: "distinct idx" by (metis distinct_upt mset_eq_imp_distinct_iff)
  from m have si: "set idx = {0..<length a}" by (metis mset_eq_setD set_upt)
  have sub: "set (take (nat sz) idx) \<subseteq> {0..<length a}"
    using si set_take_subset by fastforce
  have l: "length r = nat sz" using req len b by simp
  have s: "set r \<subseteq> set a" using req sub by auto
  have d: "distinct a \<Longrightarrow> distinct r"
  proof -
    assume da: "distinct a"
    have "inj_on (\<lambda>j. a ! j) (set (take (nat sz) idx))"
    proof (rule inj_onI)
      fix x y
      assume "x \<in> set (take (nat sz) idx)" "y \<in> set (take (nat sz) idx)" "a ! x = a ! y"
      with sub have "x < length a" "y < length a" "a ! x = a ! y" by auto
      with da show "x = y" by (simp add: nth_eq_iff_index_eq)
    qed
    with di show "distinct r" by (simp add: req distinct_map)
  qed
  from b l s d show ?thesis by blast
qed

lemma positive_negative_indices:
  "distinct (positive_indices ds)" "distinct (negative_indices ds)"
  "set (positive_indices ds) = {i. i < length (samples ds) \<and> snd (samples ds ! i) = 1}"
  "set (negative_indices ds) = {i. i < length (samples ds) \<and> snd (samples ds ! i) = 0}"
  by (auto simp: positive_indices_def negative_indices_def)

lemma demo_d_indices: "positive_indices demo_d = [2]" "negative_indices demo_d = [0, 1]"
  by (simp_all add: positive_indices_def negative_indices_def demo_d_def)

lemma demo_e_indices: "positive_indices demo_e = [1, 2]" "negative_indices demo_e = [0]"
  by (simp_all add: positive_indices_def negative_indices_def demo_e_def)

text \<open>
  C10. \<^verbatim>\<open>get_balanced_indices\<close> fails exactly when the positives outnumber the negatives
  (so it succeeds exactly when there are at most as many positives as negatives), and
  the failure is the \<^verbatim>\<open>ValueError\<close> of drawing without replacement more than the
  population holds.
\<close>

theorem get_balanced_indices_succeeds_iff:
  "(isl (get_balanced_indices permutation g ds)
      \<longleftrightarrow> length (negative_indices ds) < length (positive_indices ds))
   \<and> (isl (get_balanced_indices permutation g ds)
      \<longrightarrow> get_balanced_indices permutation g ds = Inl ValueError)"
proof -
  let ?rc = "random_choice permutation g (negative_indices ds)
               (int (length (positive_indices ds)))"
  have i: "isl (get_balanced_indices permutation g ds) = isl ?rc"
    by (auto simp: get_balanced_indices_def split: sum.splits)
  have e: "isl ?rc \<Longrightarrow> get_balanced_indices permutation g ds = Inl ValueError"
    using random_choice_error [of permutation g "negative_indices ds"]
    by (auto simp: get_balanced_indices_def split: sum.splits)
  from i e show ?thesis by (simp add: random_choice_isl)
qed

theorem get_balanced_indices_succeeds_iff_witness:
  "length (negative_indices demo_e) < length (positive_indices demo_e)
   \<and> isl (get_balanced_indices demo_rng 0 demo_e)
   \<and> get_balanced_indices demo_rng 0 demo_e = Inl ValueError
   \<and> \<not> length (negative_indices demo_d) < length (positive_indices demo_d)
   \<and> \<not> isl (get_balanced_indices demo_rng 0 demo_d)"
  using get_balanced_indices_succeeds_iff [of demo_rng 0 demo_e]
    get_balanced_indices_succeeds_iff [of demo_rng 0 demo_d]
  by (simp add: demo_e_indices demo_d_indices)

text \<open>
  C1. With at least as many negatives as positives (and a generator that draws
  permutations), \<^verbatim>\<open>get_balanced_indices\<close> returns the positive indices, each index of a
  label-1 sample exactly once, followed by as many pairwise distinct indices of label-0
  samples; so exactly half of the returned indices are of positive samples.
\<close>

theorem get_balanced_indices_balanced:
  assumes v: "valid_rng permutation"
    and le: "length (positive_indices ds) \<le> length (negative_indices ds)"
  shows "\<exists>nb g'. get_balanced_indices permutation g ds = Inr (positive_indices ds @ nb, g')
           \<and> distinct (positive_indices ds)
           \<and> set (positive_indices ds) = {i. i < length (samples ds) \<and> snd (samples ds ! i) = 1}
           \<and> length nb = length (positive_indices ds)
           \<and> distinct nb
           \<and> set nb \<subseteq> {i. i < length (samples ds) \<and> snd (samples ds ! i) = 0}
           \<and> 2 * length (filter (\<lambda>i. snd (samples ds ! i) = 1) (positive_indices ds @ nb))
               = length (positive_indices ds @ nb)"
proof -
  let ?rc = "random_choice permutation g (negative_indices ds)
               (int (length (positive_indices ds)))"
  from le have "\<not> isl ?rc" by (simp add: random_choice_isl)
  then obtain nb g' where rc: "?rc = Inr (nb, g')" by (cases ?rc) auto
  from random_choice_Inr [OF rc v]
  have l: "length nb = length (positive_indices ds)"
    and s: "set nb \<subseteq> set (negative_indices ds)"
    and d: "distinct nb"
    by (simp_all add: positive_negative_indices)
  have fp: "filter (\<lambda>i. snd (samples ds ! i) = 1) (positive_indices ds) = positive_indices ds"
    by (simp add: positive_indices_def)
  have fn: "filter (\<lambda>i. snd (samples ds ! i) = 1) nb = []"
    using s by (auto simp: filter_empty_conv positive_negative_indices)
  from rc have "get_balanced_indices permutation g ds = Inr (positive_indices ds @ nb, g')"
    by (simp add: get_balanced_indices_def)
  with l s d fp fn show ?thesis
    by (auto simp: positive_negative_indices)
qed

theorem get_balanced_indices_balanced_witness:
  "valid_rng demo_rng
   \<and> length (positive_indices demo_d) \<le> length (negative_indices demo_d)
   \<and> get_balanced_indices demo_rng 0 demo_d = Inr ([2, 1], 1)"
  using get_balanced_indices_balanced [OF valid_demo_rng, of demo_d 0]
  by (simp add: valid_demo_rng demo_d_indices get_balanced_indices_def random_choice_def
      demo_rng_def)

section \<open>The train/validation split\<close>

lemma slice_bound_in_range: "0 \<le> k \<Longrightarrow> k \<le> int n \<Longrightarrow> slice_bound n k = nat k"
  by (auto simp: slice_bound_def)

lemma ECOLDataset_init_len:
  "ECOLDataset_init fs tt rd tr = Inr ds \<Longrightarrow> len ds = length (samples ds)"
  by (auto simp: ECOLDataset_init_def Let_def split: sum.splits)

lemma get_balanced_indices_Inr:
  assumes r: "get_balanced_indices p g ds = Inr (idxs, g')" and v: "valid_rng p"
  shows "distinct idxs \<and> int (length idxs) = 2 * int (length (positive_indices ds))
         \<and> set idxs \<subseteq> {0..<length (samples ds)}"
proof -
  from r obtain nb where rc: "random_choice p g (negative_indices ds)
      (int (length (positive_indices ds))) = Inr (nb, g')" and i: "idxs = positive_indices ds @ nb"
    by (auto simp: get_balanced_indices_def split: sum.splits)
  from random_choice_Inr [OF rc v] have nb: "distinct nb" "set nb \<subseteq> set (negative_indices ds)"
    "length nb = length (positive_indices ds)"
    by (simp_all add: positive_negative_indices)
  from nb have d: "distinct idxs" unfolding i
    by (auto simp: positive_negative_indices)
  from nb have l: "int (length idxs) = 2 * int (length (positive_indices ds))"
    unfolding i by simp
  from nb have s: "set idxs \<subseteq> {0..<length (samples ds)}" unfolding i
    by (auto simp: positive_negative_indices)
  from d l s show ?thesis by blast
qed

lemma select_indices_Inr:
  assumes r: "select_indices p g ds shuffle balance dataset_size = Inr (sel, size1, g')"
    and v: "valid_rng p"
    and le: "len ds = length (samples ds)"
    and n: "\<forall>n. dataset_size = Some n \<longrightarrow>
              0 \<le> n \<and> (\<not> shuffle \<and> \<not> balance \<longrightarrow> n \<le> int (ECOLDataset_len ds))"
    and s0: "size0 = (case dataset_size of None \<Rightarrow> int (ECOLDataset_len ds) | Some n \<Rightarrow> n)"
  shows "size1 = (if balance then min size0 (2 * int (length (positive_indices ds))) else size0)
         \<and> int (length sel) = size1 \<and> distinct sel \<and> set sel \<subseteq> {0..<ECOLDataset_len ds}
         \<and> (\<not> shuffle \<and> \<not> balance \<longrightarrow> sel = [0..<nat size1])"
proof -
  from n have s0': "0 \<le> size0"
    "\<not> shuffle \<and> \<not> balance \<longrightarrow> size0 \<le> int (ECOLDataset_len ds)"
    by (auto simp: s0 split: option.splits)
  define pre where "pre = (if balance
            then (case get_balanced_indices p g ds of
                    Inl e \<Rightarrow> Inl e
                  | Inr (dataset_indices, g1) \<Rightarrow>
                      Inr (dataset_indices,
                           if int (length dataset_indices) < size0
                           then int (length dataset_indices) else size0, g1))
            else Inr ([0..<ECOLDataset_len ds], size0, g))"
  from r obtain idxs g1 where pre: "pre = Inr (idxs, size1, g1)"
    and fin: "(if shuffle
          then (case random_choice p g1 idxs size1 of
                  Inl e \<Rightarrow> Inl e
                | Inr (sel, g2) \<Rightarrow> Inr (sel, size1, g2))
          else Inr (slice_to idxs size1, size1, g1)) = Inr (sel, size1, g')"
    unfolding select_indices_def Let_def s0 [symmetric] pre_def [symmetric]
    by (auto split: sum.splits if_splits)
  have di: "distinct idxs"
    using pre v unfolding pre_def
    by (auto split: if_splits sum.splits dest: get_balanced_indices_Inr)
  have sub: "set idxs \<subseteq> {0..<ECOLDataset_len ds}"
    using pre v le unfolding pre_def ECOLDataset_len_def
    by (auto split: if_splits sum.splits dest!: get_balanced_indices_Inr)
  have nb: "\<not> balance \<longrightarrow> idxs = [0..<ECOLDataset_len ds]"
    using pre unfolding pre_def by (auto split: if_splits)
  have sz: "size1 = (if balance then min size0 (2 * int (length (positive_indices ds)))
                     else size0)"
    using pre v unfolding pre_def
    by (auto split: if_splits sum.splits dest!: get_balanced_indices_Inr)
  have b: "0 \<le> size1"
    using pre s0' unfolding pre_def by (auto split: if_splits sum.splits)
  have b': "\<not> shuffle \<longrightarrow> size1 \<le> int (length idxs)"
    using pre s0' unfolding pre_def by (auto split: if_splits sum.splits)
  have main: "int (length sel) = size1 \<and> distinct sel \<and> set sel \<subseteq> set idxs
              \<and> (\<not> shuffle \<longrightarrow> sel = take (nat size1) idxs)"
  proof (cases shuffle)
    case True
    with fin obtain g2 where rc: "random_choice p g1 idxs size1 = Inr (sel, g2)"
      by (auto split: sum.splits)
    from random_choice_Inr [OF rc v] di b True show ?thesis by simp
  next
    case False
    with fin have e: "sel = slice_to idxs size1" by simp
    from b b' False have sb: "slice_bound (length idxs) size1 = nat size1"
      by (simp add: slice_bound_in_range)
    have e': "sel = take (nat size1) idxs" by (simp add: e slice_to_def sb)
    have "set (take (nat size1) idxs) \<subseteq> set idxs" by (rule set_take_subset)
    with e' di b b' False show ?thesis by simp
  qed
  have plain: "\<not> shuffle \<and> \<not> balance \<longrightarrow> sel = [0..<nat size1]"
  proof (intro impI)
    assume a: "\<not> shuffle \<and> \<not> balance"
    with main nb have e: "sel = take (nat size1) [0..<ECOLDataset_len ds]" by simp
    from a b' nb b have "nat size1 \<le> ECOLDataset_len ds" by simp
    then show "sel = [0..<nat size1]" unfolding e by simp
  qed
  from main sub have sub': "set sel \<subseteq> {0..<ECOLDataset_len ds}" by blast
  from main have m1: "int (length sel) = size1" and m2: "distinct sel" by blast+
  show ?thesis by (rule conjI [OF sz conjI [OF m1 conjI [OF m2 conjI [OF sub' plain]]]])
qed

lemma split_index_bounds:
  assumes m: "mul_within_bounds ops" and ts: "0 \<le> ts" "ts \<le> 1"
    and s: "0 \<le> s" "s \<le> 2 ^ 53"
  shows "\<exists>r. float_mul ops (Finite ts) (Finite (real_of_int s)) = Finite r
             \<and> val_split_index_of ops (Finite ts) s = Inr \<lfloor>r\<rfloor>
             \<and> 0 \<le> \<lfloor>r\<rfloor> \<and> \<lfloor>r\<rfloor> \<le> s"
proof -
  from m ts s obtain r where
    r: "float_mul ops (Finite ts) (Finite (real_of_int s)) = Finite r"
    and b: "0 \<le> r" "r \<le> real_of_int s"
    unfolding mul_within_bounds_def by blast
  from b(2) have "\<lfloor>r\<rfloor> \<le> \<lfloor>real_of_int s\<rfloor>" by (rule floor_mono)
  then have u: "\<lfloor>r\<rfloor> \<le> s" by simp
  from b(1) have l: "0 \<le> \<lfloor>r\<rfloor>" by simp
  from r have "val_split_index_of ops (Finite ts) s = Inr \<lfloor>r\<rfloor>"
    by (simp add: val_split_index_of_def)
  with r l u show ?thesis by blast
qed

lemma demo_ops_mul_within_bounds: "mul_within_bounds demo_ops"
  unfolding mul_within_bounds_def demo_ops_def lift_exact_def
  by (simp add: mult_left_le_one_le)

lemma demo_float_mul: "float_mul demo_ops (Finite a) (Finite b) = Finite (a * b)"
  by (simp add: demo_ops_def lift_exact_def)

lemma demo_init_some: "ECOLDataset_init demo_fs Inr ''/d'' (Some Inr) = Inr demo_d"
  by (simp add: demo_d_def ECOLDataset_init_def demo_fs_def
      build_dir_label_map_def dict_set_def dict_get_def os_path_join_def Let_def)

lemma demo_d_len: "len demo_d = 3" "ECOLDataset_len demo_d = 3"
  by (simp_all add: demo_d_def ECOLDataset_len_def)

lemma upt_0_3: "[0..<3] = [0, 1, 2]"
  by code_simp

lemma demo_select_two:
  "select_indices demo_rng 0 demo_d True False (Some 2) = Inr ([2, 1], 2, 1)"
  by (simp add: select_indices_def random_choice_def demo_rng_def demo_d_len upt_0_3)

lemma demo_load_half:
  "demo_load True False (Some 2) (Finite (1 / 2)) =
     Inr (\<lparr> loader_dataset = demo_d, loader_batch_size = 8, sampler_indices = [1] \<rparr>,
          \<lparr> loader_dataset = demo_d, loader_batch_size = 8, sampler_indices = [2] \<rparr>, 1)"
  by (simp add: demo_load_def load_dataset_ECOL_labeled_def demo_init_some demo_select_two
      val_split_index_of_def demo_ops_def lift_exact_def
      slice_to_def slice_from_def slice_bound_def Let_def)

text \<open>
  C5, as the claim states it ("for every call"), fails when \<^verbatim>\<open>test_size\<close> is not a
  fraction: with \<^verbatim>\<open>test_size = 1.5\<close> on three samples (\<^verbatim>\<open>shuffle=False\<close>,
  \<^verbatim>\<open>balance=False\<close>) the product 4.5 is exact, the split index is 4, the validation
  sampler receives the three indices there are and the training sampler none, not 3 - 4.
\<close>

theorem load_dataset_split_counterexample:
  "demo_load False False None (Finite (3 / 2)) =
     Inr (\<lparr> loader_dataset = demo_d, loader_batch_size = 8, sampler_indices = [] \<rparr>,
          \<lparr> loader_dataset = demo_d, loader_batch_size = 8, sampler_indices = [0, 1, 2] \<rparr>, 0)
   \<and> select_indices demo_rng 0 demo_d False False None = Inr ([0, 1, 2], 3, 0)
   \<and> val_split_index_of demo_ops (Finite (3 / 2)) 3 = Inr 4
   \<and> int (length [0, 1, 2 :: nat]) \<noteq> 4
   \<and> int (length ([] :: nat list)) \<noteq> 3 - 4"
  by (simp add: demo_load_def load_dataset_ECOL_labeled_def demo_init_some select_indices_def
      val_split_index_of_def demo_ops_def lift_exact_def
      slice_to_def slice_from_def slice_bound_def demo_d_len upt_0_3 Let_def)

text \<open>
  C5, amended. For every call of \<^verbatim>\<open>load_dataset_ECOL_labeled\<close> that returns, on a dataset
  \<open>ds\<close> of at most \<open>2 ^ 53\<close> samples, with \<^verbatim>\<open>0 <= test_size <= 1\<close>, with \<^verbatim>\<open>dataset_size\<close>
  (when given) not negative and, when neither \<^verbatim>\<open>shuffle\<close> nor \<^verbatim>\<open>balance\<close> is set, at most
  \<^verbatim>\<open>len(dataset)\<close>, with a generator that draws permutations and a float multiplication
  that keeps a fraction of a count between 0 and the count. Let \<open>size0\<close> be the
  \<^verbatim>\<open>dataset_size\<close> given, \<^verbatim>\<open>len(dataset)\<close> when none is, and \<open>size1\<close> the size in force:
  \<open>size0\<close>, or with \<^verbatim>\<open>balance\<close> the smaller of \<open>size0\<close> and twice the number of positive
  samples. Then the selected index sequence \<open>sel\<close> has \<open>size1\<close> members, pairwise distinct
  positions of the dataset (the first \<open>size1\<close> positions in order when neither \<^verbatim>\<open>shuffle\<close>
  nor \<^verbatim>\<open>balance\<close> is set); the split index is the floor of the float product
  \<^verbatim>\<open>test_size * size1\<close> as the float multiplication rounds it, \<open>r\<close>, and lies between 0 and
  \<open>size1\<close>; the validation sampler receives exactly the first \<open>floor r\<close> members of \<open>sel\<close>
  and the training sampler exactly the remaining \<open>size1 - floor r\<close>; the two parts are
  disjoint and together are \<open>sel\<close>.
\<close>

theorem load_dataset_split:
  assumes ret: "load_dataset_ECOL_labeled fs tt dt ops permutation g rd img_size bs shuffle
                  balance tr dataset_size (Finite ts) = Inr (train_loader, val_loader, g')"
    and v: "valid_rng permutation"
    and m: "mul_within_bounds ops"
    and ts: "0 \<le> ts" "ts \<le> 1"
    and ds: "ds = loader_dataset train_loader"
    and big: "int (ECOLDataset_len ds) \<le> 2 ^ 53"
    and n: "\<forall>n. dataset_size = Some n \<longrightarrow>
              0 \<le> n \<and> (\<not> shuffle \<and> \<not> balance \<longrightarrow> n \<le> int (ECOLDataset_len ds))"
    and s0: "size0 = (case dataset_size of None \<Rightarrow> int (ECOLDataset_len ds) | Some n \<Rightarrow> n)"
    and s1: "size1 = (if balance then min size0 (2 * int (length (positive_indices ds)))
                      else size0)"
  shows "\<exists>sel r.
           select_indices permutation g ds shuffle balance dataset_size = Inr (sel, size1, g')
         \<and> loader_dataset val_loader = ds
         \<and> int (length sel) = size1
         \<and> distinct sel
         \<and> set sel \<subseteq> {0..<ECOLDataset_len ds}
         \<and> (\<not> shuffle \<and> \<not> balance \<longrightarrow> sel = [0..<nat size1])
         \<and> float_mul ops (Finite ts) (Finite (real_of_int size1)) = Finite r
         \<and> 0 \<le> \<lfloor>r\<rfloor> \<and> \<lfloor>r\<rfloor> \<le> size1
         \<and> sampler_indices val_loader = take (nat \<lfloor>r\<rfloor>) sel
         \<and> sampler_indices train_loader = drop (nat \<lfloor>r\<rfloor>) sel
         \<and> int (length (sampler_indices val_loader)) = \<lfloor>r\<rfloor>
         \<and> int (length (sampler_indices train_loader)) = size1 - \<lfloor>r\<rfloor>
         \<and> sampler_indices val_loader @ sampler_indices train_loader = sel
         \<and> set (sampler_indices val_loader) \<inter> set (sampler_indices train_loader) = {}"
proof -
  from ret obtain ds' sel sz k where
    init: "ECOLDataset_init fs tt rd
             (Some (case tr of None \<Rightarrow> dt img_size | Some f \<Rightarrow> f)) = Inr ds'"
    and sel: "select_indices permutation g ds' shuffle balance dataset_size = Inr (sel, sz, g')"
    and k: "val_split_index_of ops (Finite ts) sz = Inr k"
    and tl: "train_loader = \<lparr> loader_dataset = ds', loader_batch_size = bs,
               sampler_indices = slice_from sel k \<rparr>"
    and vl: "val_loader = \<lparr> loader_dataset = ds', loader_batch_size = bs,
               sampler_indices = slice_to sel k \<rparr>"
    by (auto simp: load_dataset_ECOL_labeled_def Let_def split: sum.splits)
  from tl ds have dd: "ds' = ds" by simp
  note le = ECOLDataset_init_len [OF init, unfolded dd]
  note si = select_indices_Inr [OF sel [unfolded dd] v le n s0]
  from si s1 have szeq: "sz = size1" by simp
  from si szeq have len: "int (length sel) = size1" and d: "distinct sel"
    and sub: "set sel \<subseteq> {0..<ECOLDataset_len ds}"
    and plain: "\<not> shuffle \<and> \<not> balance \<longrightarrow> sel = [0..<nat size1]"
    by blast+
  from len have nn: "0 \<le> size1" by auto
  from d sub have "card (set sel) \<le> card {0..<ECOLDataset_len ds}"
    by (intro card_mono) simp_all
  with d have "length sel \<le> ECOLDataset_len ds" by (simp add: distinct_card)
  with len big have bg: "size1 \<le> 2 ^ 53" by linarith
  from split_index_bounds [OF m ts nn bg] obtain r where
    r: "float_mul ops (Finite ts) (Finite (real_of_int size1)) = Finite r"
    and kr: "val_split_index_of ops (Finite ts) size1 = Inr \<lfloor>r\<rfloor>"
    and k0: "0 \<le> \<lfloor>r\<rfloor>" and k1: "\<lfloor>r\<rfloor> \<le> size1"
    by blast
  from k kr szeq have keq: "k = \<lfloor>r\<rfloor>" by simp
  from k0 k1 len have sb: "slice_bound (length sel) \<lfloor>r\<rfloor> = nat \<lfloor>r\<rfloor>"
    by (simp add: slice_bound_in_range)
  have c1: "select_indices permutation g ds shuffle balance dataset_size = Inr (sel, size1, g')"
    using sel dd szeq by simp
  have c2: "loader_dataset val_loader = ds" by (simp add: vl dd)
  have v1: "sampler_indices val_loader = take (nat \<lfloor>r\<rfloor>) sel"
    by (simp add: vl keq slice_to_def sb)
  have t1: "sampler_indices train_loader = drop (nat \<lfloor>r\<rfloor>) sel"
    by (simp add: tl keq slice_from_def sb)
  have l1: "int (length (sampler_indices val_loader)) = \<lfloor>r\<rfloor>"
    unfolding v1 using k0 k1 len by simp
  have l2: "int (length (sampler_indices train_loader)) = size1 - \<lfloor>r\<rfloor>"
    unfolding t1 using k0 k1 len by simp
  have ap: "sampler_indices val_loader @ sampler_indices train_loader = sel"
    unfolding v1 t1 by simp
  have disj: "set (sampler_indices val_loader) \<inter> set (sampler_indices train_loader) = {}"
    unfolding v1 t1 using d by (metis append_take_drop_id distinct_append)
  have "select_indices permutation g ds shuffle balance dataset_size = Inr (sel, size1, g')
         \<and> loader_dataset val_loader = ds
         \<and> int (length sel) = size1
         \<and> distinct sel
         \<and> set sel \<subseteq> {0..<ECOLDataset_len ds}
         \<and> (\<not> shuffle \<and> \<not> balance \<longrightarrow> sel = [0..<nat size1])
         \<and> float_mul ops (Finite ts) (Finite (real_of_int size1)) = Finite r
         \<and> 0 \<le> \<lfloor>r\<rfloor> \<and> \<lfloor>r\<rfloor> \<le> size1
         \<and> sampler_indices val_loader = take (nat \<lfloor>r\<rfloor>) sel
         \<and> sampler_indices train_loader = drop (nat \<lfloor>r\<rfloor>) sel
         \<and> int (length (sampler_indices val_loader)) = \<lfloor>r\<rfloor>
         \<and> int (length (sampler_indices train_loader)) = size1 - \<lfloor>r\<rfloor>
         \<and> sampler_indices val_loader @ sampler_indices train_loader = sel
         \<and> set (sampler_indices val_loader) \<inter> set (sampler_indices train_loader) = {}"
    by (intro conjI c1 c2 len d sub plain r k0 k1 v1 t1 l1 l2 ap disj)
  then show ?thesis by blast
qed

theorem load_dataset_split_witness:
  "demo_load True False (Some 2) (Finite (1 / 2)) =
     Inr (\<lparr> loader_dataset = demo_d, loader_batch_size = 8, sampler_indices = [1] \<rparr>,
          \<lparr> loader_dataset = demo_d, loader_batch_size = 8, sampler_indices = [2] \<rparr>, 1)
   \<and> valid_rng demo_rng \<and> mul_within_bounds demo_ops
   \<and> (0::real) \<le> 1 / 2 \<and> (1 / 2 :: real) \<le> 1
   \<and> int (ECOLDataset_len demo_d) \<le> 2 ^ 53
   \<and> select_indices demo_rng 0 demo_d True False (Some 2) = Inr ([2, 1], 2, 1)
   \<and> float_mul demo_ops (Finite (1 / 2)) (Finite (real_of_int 2)) = Finite 1
   \<and> (\<exists>sel r. select_indices demo_rng 0 demo_d True False (Some 2) = Inr (sel, 2, 1)
         \<and> float_mul demo_ops (Finite (1 / 2)) (Finite (real_of_int 2)) = Finite r
         \<and> [2 :: nat] = take (nat \<lfloor>r\<rfloor>) sel \<and> [1 :: nat] = drop (nat \<lfloor>r\<rfloor>) sel)"
  using load_dataset_split [OF demo_load_half [unfolded demo_load_def] valid_demo_rng
      demo_ops_mul_within_bounds, of demo_d 2 2]
  by (simp add: demo_load_half valid_demo_rng demo_ops_mul_within_bounds demo_select_two
      demo_d_len demo_float_mul)

section \<open>The dataset as a sequence\<close>

text \<open>
  C7. For a dataset that \<^verbatim>\<open>ECOLDataset\<close> constructed, \<^verbatim>\<open>__len__\<close> is the number of collected
  samples, and for every position \<open>idx\<close> in range \<^verbatim>\<open>__getitem__(idx)\<close> decodes the image at
  the path stored at position \<open>idx\<close> and returns it with the label and the path stored
  there (it raises what the decoding raises).
\<close>

theorem dataset_len_getitem:
  assumes init: "ECOLDataset_init fs tt rd tr = Inr ds"
  shows "ECOLDataset_len ds = length (samples ds)
       \<and> (\<forall>idx. 0 \<le> idx \<and> idx < int (ECOLDataset_len ds) \<longrightarrow>
            ECOLDataset_getitem imread cvtColor ds idx =
              (case imread (fst (samples ds ! nat idx)) of
                 None \<Rightarrow> Inl CvError
               | Some img \<Rightarrow>
                   (case transform ds (cvtColor img) of
                      Inl e \<Rightarrow> Inl e
                    | Inr img' \<Rightarrow>
                        Inr (img', snd (samples ds ! nat idx), fst (samples ds ! nat idx)))))"
proof -
  from ECOLDataset_init_len [OF init] have l: "ECOLDataset_len ds = length (samples ds)"
    by (simp add: ECOLDataset_len_def)
  show ?thesis
  proof (intro conjI allI impI)
    show "ECOLDataset_len ds = length (samples ds)" by (rule l)
  next
    fix idx assume "0 \<le> idx \<and> idx < int (ECOLDataset_len ds)"
    with l have "py_index (samples ds) idx = Inr (samples ds ! nat idx)"
      by (simp add: py_index_def)
    then show "ECOLDataset_getitem imread cvtColor ds idx =
              (case imread (fst (samples ds ! nat idx)) of
                 None \<Rightarrow> Inl CvError
               | Some img \<Rightarrow>
                   (case transform ds (cvtColor img) of
                      Inl e \<Rightarrow> Inl e
                    | Inr img' \<Rightarrow>
                        Inr (img', snd (samples ds ! nat idx), fst (samples ds ! nat idx))))"
      by (auto simp: ECOLDataset_getitem_def split: prod.splits option.splits sum.splits)
  qed
qed

theorem dataset_len_getitem_witness:
  "demo_dataset ''/d'' = Inr demo_d
   \<and> ECOLDataset_len demo_d = 3
   \<and> ECOLDataset_getitem (\<lambda>p. Some (length p)) Suc demo_d 2 = Inr (13, 1, ''/d/pos/c.png'')"
  using dataset_len_getitem [OF demo_dataset_d [unfolded demo_dataset_def],
      of "\<lambda>p. Some (length p)" Suc]
  by (simp add: demo_dataset_d demo_d_len) (simp add: demo_d_def)

section \<open>Labels from the directory structure\<close>

lemma dict_set_fresh: "k \<notin> fst ` set al \<Longrightarrow> dict_set al k v = al @ [(k, v)]"
  unfolding dict_set_def by (induction al) auto

lemma label_fold:
  "distinct xs \<Longrightarrow> set xs \<inter> fst ` set acc = {} \<Longrightarrow>
     fold (\<lambda>(i, subdir) m. dict_set m subdir (int i)) (enumerate n xs) acc
       = acc @ zip xs (map int [n..<n + length xs])"
proof (induction xs arbitrary: n acc)
  case Nil
  then show ?case by simp
next
  case (Cons x xs)
  from Cons.prems have fresh: "x \<notin> fst ` set acc" by auto
  from Cons.prems have d: "distinct xs"
    and disj: "set xs \<inter> fst ` set (acc @ [(x, int n)]) = {}" by auto
  have "[n..<n + length (x # xs)] = n # [Suc n..<Suc n + length xs]"
    using upt_conv_Cons [of n "n + length (x # xs)"] by simp
  with Cons.IH [OF d disj, of "Suc n"] fresh show ?case
    by (simp add: dict_set_fresh)
qed

lemma build_dir_label_map_distinct:
  "distinct sds \<Longrightarrow> build_dir_label_map sds = zip sds (map int [0..<length sds])"
  using label_fold [of sds "[]" 0] by (simp add: build_dir_label_map_def)

lemma dir_label_lookup:
  assumes "distinct sds" "i < length sds"
  shows "dict_get (build_dir_label_map sds) (sds ! i) = Inr (int i)"
proof -
  have "map_of (zip sds (map int [0..<length sds])) (sds ! i) = Some (map int [0..<length sds] ! i)"
    using assms by (intro map_of_zip_nth) simp_all
  with assms show ?thesis
    by (simp add: build_dir_label_map_distinct dict_get_def)
qed

lemma collect_imgs_eq:
  "dict_get m subdir = Inr l \<Longrightarrow>
     collect_imgs m subdir sp names acc = Inr (acc @ map (\<lambda>img. (os_path_join sp img, l)) names)"
  by (induction names arbitrary: acc) auto

lemma collect_samples_eq:
  assumes "collect_samples fs m rootd rest acc = Inr smp"
    and "\<forall>sd \<in> set rest. dict_get m sd = Inr (lab sd)"
  shows "smp = acc @ concat (map (\<lambda>sd. map (\<lambda>img. (os_path_join (os_path_join rootd sd) img, lab sd))
                       (listed fs (os_path_join rootd sd))) rest)"
  using assms
proof (induction rest arbitrary: acc)
  case Nil
  then show ?case by simp
next
  case (Cons sd rest)
  let ?sp = "os_path_join rootd sd"
  from Cons.prems(1) obtain names where ls: "listdir fs ?sp = Inr names"
    by (auto simp: Let_def split: sum.splits)
  from Cons.prems(2) have l: "dict_get m sd = Inr (lab sd)" by simp
  let ?acc' = "acc @ map (\<lambda>img. (os_path_join ?sp img, lab sd)) names"
  from Cons.prems(1) ls collect_imgs_eq [OF l]
  have r: "collect_samples fs m rootd rest ?acc' = Inr smp"
    by (simp add: Let_def)
  from Cons.prems(2) have "\<forall>sd \<in> set rest. dict_get m sd = Inr (lab sd)" by simp
  from Cons.IH [OF r this] ls show ?case
    by (simp add: listed_def)
qed

lemma sort_same_set:
  fixes xs ys :: "string list"
  assumes "distinct xs" "distinct ys" "set xs = set ys"
  shows "sort xs = sort ys"
  using assms by (intro sorted_distinct_set_unique) simp_all

lemma ECOLDataset_init_fields:
  assumes init: "ECOLDataset_init fs tt rd tr = Inr ds"
    and ls: "listdir fs (abspath fs rd) = Inr names"
  shows "root_dir ds = abspath fs rd" "subdirs ds = sort names"
    "dir_label_map ds = build_dir_label_map (sort names)"
    "collect_samples fs (build_dir_label_map (sort names)) (abspath fs rd) (sort names) []
       = Inr (samples ds)"
  using init ls by (auto simp: ECOLDataset_init_def Let_def split: sum.splits)

text \<open>
  C3. For a dataset that \<^verbatim>\<open>ECOLDataset\<close> constructed over a root whose listing \<open>names\<close>
  has no name twice (as a directory listing has): \<^verbatim>\<open>subdirs\<close> is the sorted listing, the
  label map sends the name at position i of it to i, and the samples are, for each
  position i in order, the files listed in subdirectory i, each with its path under that
  subdirectory and the label i. The mapping depends on the set of names only: any
  dataset built over a listing with the same set of names has the same \<^verbatim>\<open>subdirs\<close> and
  the same label map.
\<close>

theorem dataset_labels_alphabetical:
  assumes init: "ECOLDataset_init fs tt rd tr = Inr ds"
    and ls: "listdir fs (abspath fs rd) = Inr names"
    and d: "distinct names"
  shows "subdirs ds = sort names
       \<and> dir_label_map ds = zip (subdirs ds) (map int [0..<length (subdirs ds)])
       \<and> (\<forall>i<length (subdirs ds). dict_get (dir_label_map ds) (subdirs ds ! i) = Inr (int i))
       \<and> samples ds =
           concat (map (\<lambda>i. map (\<lambda>img. (os_path_join (os_path_join (root_dir ds) (subdirs ds ! i)) img,
                                         int i))
                               (listed fs (os_path_join (root_dir ds) (subdirs ds ! i))))
                   [0..<length (subdirs ds)])
       \<and> (\<forall>fs' tt' rd' tr' ds' names'.
             ECOLDataset_init fs' tt' rd' tr' = Inr (ds' :: 'a ECOLDataset)
             \<and> listdir fs' (abspath fs' rd') = Inr names'
             \<and> distinct names' \<and> set names' = set names
             \<longrightarrow> subdirs ds' = subdirs ds \<and> dir_label_map ds' = dir_label_map ds)"
proof -
  note f = ECOLDataset_init_fields [OF init ls]
  let ?sds = "sort names"
  from d have ds: "distinct ?sds" by simp
  have lab: "\<forall>sd \<in> set ?sds. dict_get (build_dir_label_map ?sds) sd
                = Inr (int (index_of sd))" if "\<And>i. i < length ?sds \<Longrightarrow> index_of (?sds ! i) = i" for index_of
    using that dir_label_lookup [OF ds] by (metis in_set_conv_nth)
  define ix where "ix sd = (THE i. i < length ?sds \<and> ?sds ! i = sd)" for sd
  have ix: "ix (?sds ! i) = i" if "i < length ?sds" for i
    unfolding ix_def using that ds by (auto simp: nth_eq_iff_index_eq)
  from collect_samples_eq [OF f(4), of "\<lambda>sd. int (ix sd)"] lab [of ix] ix
  have "samples ds = concat (map (\<lambda>sd. map (\<lambda>img. (os_path_join (os_path_join (abspath fs rd) sd) img, int (ix sd)))
                       (listed fs (os_path_join (abspath fs rd) sd))) ?sds)"
    by simp
  also have "\<dots> = concat (map (\<lambda>i. map (\<lambda>img. (os_path_join (os_path_join (abspath fs rd) (?sds ! i)) img, int i))
                       (listed fs (os_path_join (abspath fs rd) (?sds ! i)))) [0..<length ?sds])"
  proof -
    have "map (\<lambda>sd. map (\<lambda>img. (os_path_join (os_path_join (abspath fs rd) sd) img, int (ix sd)))
                       (listed fs (os_path_join (abspath fs rd) sd))) ?sds
        = map (\<lambda>sd. map (\<lambda>img. (os_path_join (os_path_join (abspath fs rd) sd) img, int (ix sd)))
                       (listed fs (os_path_join (abspath fs rd) sd))) (map (\<lambda>i. ?sds ! i) [0..<length ?sds])"
      by (simp only: map_nth)
    also have "\<dots> = map (\<lambda>i. map (\<lambda>img. (os_path_join (os_path_join (abspath fs rd) (?sds ! i)) img, int i))
                       (listed fs (os_path_join (abspath fs rd) (?sds ! i)))) [0..<length ?sds]"
      unfolding map_map by (rule map_cong) (simp_all add: ix)
    finally show ?thesis by simp
  qed
  finally have smp: "samples ds = concat (map (\<lambda>i. map (\<lambda>img. (os_path_join (os_path_join (abspath fs rd) (?sds ! i)) img, int i))
                       (listed fs (os_path_join (abspath fs rd) (?sds ! i)))) [0..<length ?sds])" .
  have det: "subdirs ds' = subdirs ds \<and> dir_label_map ds' = dir_label_map ds"
    if "ECOLDataset_init fs' tt' rd' tr' = Inr ds'" "listdir fs' (abspath fs' rd') = Inr names'"
      "distinct names'" "set names' = set names"
    for fs' rd' names' and tt' :: "'a \<Rightarrow> error + 'a" and tr' and ds' :: "'a ECOLDataset"
    using ECOLDataset_init_fields [OF that(1,2)] f sort_same_set [OF that(3) d that(4)]
    by simp
  have c1: "subdirs ds = sort names" by (rule f(2))
  have c2: "dir_label_map ds = zip (subdirs ds) (map int [0..<length (subdirs ds)])"
    using ds by (simp add: f(2,3) build_dir_label_map_distinct)
  have c3: "\<forall>i<length (subdirs ds). dict_get (dir_label_map ds) (subdirs ds ! i) = Inr (int i)"
    using dir_label_lookup [OF ds] by (simp add: f(2,3))
  have c4: "samples ds =
           concat (map (\<lambda>i. map (\<lambda>img. (os_path_join (os_path_join (root_dir ds) (subdirs ds ! i)) img,
                                         int i))
                               (listed fs (os_path_join (root_dir ds) (subdirs ds ! i))))
                   [0..<length (subdirs ds)])"
    using smp by (simp add: f(1,2))
  have c5: "\<forall>fs' tt' rd' tr' ds' names'.
             ECOLDataset_init fs' tt' rd' tr' = Inr (ds' :: 'a ECOLDataset)
             \<and> listdir fs' (abspath fs' rd') = Inr names'
             \<and> distinct names' \<and> set names' = set names
             \<longrightarrow> subdirs ds' = subdirs ds \<and> dir_label_map ds' = dir_label_map ds"
    using det by blast
  show ?thesis
    by (rule conjI [OF c1 conjI [OF c2 conjI [OF c3 conjI [OF c4 c5]]]])
qed

theorem dataset_labels_alphabetical_witness:
  "demo_dataset ''/d'' = Inr demo_d
   \<and> listdir demo_fs (abspath demo_fs ''/d'') = Inr [''pos'', ''neg'']
   \<and> distinct [''pos'', ''neg'']
   \<and> subdirs demo_d = [''neg'', ''pos'']
   \<and> dict_get (dir_label_map demo_d) ''neg'' = Inr 0
   \<and> dict_get (dir_label_map demo_d) ''pos'' = Inr 1
   \<and> samples demo_d = [(''/d/neg/a.png'', 0), (''/d/neg/b.png'', 0), (''/d/pos/c.png'', 1)]"
  using dataset_labels_alphabetical [OF demo_dataset_d [unfolded demo_dataset_def],
      of "[''pos'', ''neg'']"]
  by (simp add: demo_dataset_d) (simp add: demo_fs_def demo_d_def dict_get_def)

section \<open>The confusion buckets\<close>

lemma curr_key_in_keys: "curr_key_of pb l \<in> set confusion_keys"
  by (simp add: curr_key_of_def confusion_keys_def)

lemma dict_set_map_of: "map_of (dict_set al k v) = (map_of al)(k \<mapsto> v)"
  by (simp add: dict_set_def update_conv')

lemma dict_set_keys: "k \<in> set (map fst al) \<Longrightarrow> map fst (dict_set al k v) = map fst al"
  by (simp add: dict_set_def update_keys)

lemma keys_lookup:
  "map fst al = confusion_keys \<Longrightarrow> k \<in> set confusion_keys \<Longrightarrow> \<exists>v. map_of al k = Some v"
  by (metis map_of_eq_None_iff not_None_eq set_map)

lemma update_sample_effect:
  assumes inv: "tracker_inv t" and i: "i < length pb"
    and p: "case paths of None \<Rightarrow> True | Some ps \<Rightarrow> i < length ps"
  shows "\<exists>t'. update_sample psg pb ls paths t i = (t', None) \<and> tracker_inv t'
     \<and> map_of (confusion_cnt t') =
         (\<lambda>k. if k = curr_key_of (pb ! i) (ls ! i)
               then map_option (\<lambda>c. c + 1) (map_of (confusion_cnt t) k)
               else map_of (confusion_cnt t) k)
     \<and> map_of (confusion_arrays t') =
         (\<lambda>k. if k = curr_key_of (pb ! i) (ls ! i)
               then map_option (\<lambda>a. a @ [psg ! i]) (map_of (confusion_arrays t) k)
               else map_of (confusion_arrays t) k)
     \<and> map_of (confusion_paths t') =
         (\<lambda>k. if k = curr_key_of (pb ! i) (ls ! i)
               then map_option (\<lambda>pl. pl @ (case paths of None \<Rightarrow> [] | Some ps \<Rightarrow> [ps ! i]))
                      (map_of (confusion_paths t) k)
               else map_of (confusion_paths t) k)"
proof -
  let ?key = "curr_key_of (pb ! i) (ls ! i)"
  have kin: "?key \<in> set confusion_keys" by (rule curr_key_in_keys)
  from inv have k1: "map fst (confusion_cnt t) = confusion_keys"
    and k2: "map fst (confusion_arrays t) = confusion_keys"
    and k3: "map fst (confusion_paths t) = confusion_keys"
    and bc: "0 \<le> batches_cnt t"
    by (simp_all add: tracker_inv_def)
  from keys_lookup [OF k1 kin] obtain c where c: "map_of (confusion_cnt t) ?key = Some c" ..
  from keys_lookup [OF k2 kin] obtain arr where a: "map_of (confusion_arrays t) ?key = Some arr" ..
  from keys_lookup [OF k3 kin] obtain pl where l: "map_of (confusion_paths t) ?key = Some pl" ..
  from kin k1 have m1: "?key \<in> set (map fst (confusion_cnt t))" by simp
  from kin k2 have m2: "?key \<in> set (map fst (confusion_arrays t))" by simp
  from kin k3 have m3: "?key \<in> set (map fst (confusion_paths t))" by simp
  show ?thesis
  proof (cases paths)
    case None
    let ?t' = "t\<lparr>confusion_cnt := dict_set (confusion_cnt t) ?key (c + 1),
                 confusion_arrays := dict_set (confusion_arrays t) ?key (arr @ [psg ! i])\<rparr>"
    from None i c a have u: "update_sample psg pb ls paths t i = (?t', None)"
      by (simp add: update_sample_def Let_def)
    have inv': "tracker_inv ?t'"
      using bc k1 k2 k3 m1 m2 by (simp add: tracker_inv_def dict_set_keys)
    have e1: "map_of (confusion_cnt ?t') =
         (\<lambda>k. if k = ?key then map_option (\<lambda>c. c + 1) (map_of (confusion_cnt t) k)
               else map_of (confusion_cnt t) k)"
      using c by (auto simp: dict_set_map_of)
    have e2: "map_of (confusion_arrays ?t') =
         (\<lambda>k. if k = ?key then map_option (\<lambda>a. a @ [psg ! i]) (map_of (confusion_arrays t) k)
               else map_of (confusion_arrays t) k)"
      using a by (auto simp: dict_set_map_of)
    have e3: "map_of (confusion_paths ?t') =
         (\<lambda>k. if k = ?key
               then map_option (\<lambda>pl. pl @ (case paths of None \<Rightarrow> [] | Some ps \<Rightarrow> [ps ! i]))
                      (map_of (confusion_paths t) k)
               else map_of (confusion_paths t) k)"
      using None by (auto simp: option.map_ident)
    from u inv' e1 e2 e3 show ?thesis by blast
  next
    case (Some ps)
    let ?t' = "t\<lparr>confusion_cnt := dict_set (confusion_cnt t) ?key (c + 1),
                 confusion_arrays := dict_set (confusion_arrays t) ?key (arr @ [psg ! i]),
                 confusion_paths := dict_set (confusion_paths t) ?key (pl @ [ps ! i])\<rparr>"
    from Some p have "i < length ps" by simp
    with Some i c a l have u: "update_sample psg pb ls paths t i = (?t', None)"
      by (simp add: update_sample_def Let_def)
    have inv': "tracker_inv ?t'"
      using bc k1 k2 k3 m1 m2 m3 by (simp add: tracker_inv_def dict_set_keys)
    have e1: "map_of (confusion_cnt ?t') =
         (\<lambda>k. if k = ?key then map_option (\<lambda>c. c + 1) (map_of (confusion_cnt t) k)
               else map_of (confusion_cnt t) k)"
      using c by (auto simp: dict_set_map_of)
    have e2: "map_of (confusion_arrays ?t') =
         (\<lambda>k. if k = ?key then map_option (\<lambda>a. a @ [psg ! i]) (map_of (confusion_arrays t) k)
               else map_of (confusion_arrays t) k)"
      using a by (auto simp: dict_set_map_of)
    have e3: "map_of (confusion_paths ?t') =
         (\<lambda>k. if k = ?key
               then map_option (\<lambda>pl. pl @ (case paths of None \<Rightarrow> [] | Some ps \<Rightarrow> [ps ! i]))
                      (map_of (confusion_paths t) k)
               else map_of (confusion_paths t) k)"
      using l Some by (auto simp: dict_set_map_of)
    from u inv' e1 e2 e3 show ?thesis by blast
  qed
qed

lemma update_loop_effect:
  assumes inv: "tracker_inv t"
    and r: "\<forall>i \<in> set is. i < length pb \<and> (case paths of None \<Rightarrow> True | Some ps \<Rightarrow> i < length ps)"
  shows "\<exists>t'. update_loop psg pb ls paths t is = (t', None) \<and> tracker_inv t'
     \<and> (\<forall>k. map_of (confusion_cnt t') k =
               map_option (\<lambda>c. c + int (length (filter (\<lambda>i. curr_key_of (pb ! i) (ls ! i) = k) is)))
                 (map_of (confusion_cnt t) k))
     \<and> (\<forall>k. map_of (confusion_arrays t') k =
               map_option (\<lambda>a. a @ map (\<lambda>i. psg ! i) (filter (\<lambda>i. curr_key_of (pb ! i) (ls ! i) = k) is))
                 (map_of (confusion_arrays t) k))
     \<and> (\<forall>k. map_of (confusion_paths t') k =
               map_option (\<lambda>pl. pl @ (case paths of None \<Rightarrow> []
                                       | Some ps \<Rightarrow> map (\<lambda>i. ps ! i)
                                            (filter (\<lambda>i. curr_key_of (pb ! i) (ls ! i) = k) is)))
                 (map_of (confusion_paths t) k))"
  using assms
proof (induction "is" arbitrary: t)
  case Nil
  then show ?case by (simp add: option.map_ident split: option.splits)
next
  case (Cons i rest)
  from Cons.prems(2) have i: "i < length pb"
    and p: "case paths of None \<Rightarrow> True | Some ps \<Rightarrow> i < length ps" by simp_all
  from update_sample_effect [OF Cons.prems(1) i p, of psg ls]
  obtain t1 where u: "update_sample psg pb ls paths t i = (t1, None)" and inv1: "tracker_inv t1"
    and e1: "map_of (confusion_cnt t1) =
         (\<lambda>k. if k = curr_key_of (pb ! i) (ls ! i)
               then map_option (\<lambda>c. c + 1) (map_of (confusion_cnt t) k)
               else map_of (confusion_cnt t) k)"
    and e2: "map_of (confusion_arrays t1) =
         (\<lambda>k. if k = curr_key_of (pb ! i) (ls ! i)
               then map_option (\<lambda>a. a @ [psg ! i]) (map_of (confusion_arrays t) k)
               else map_of (confusion_arrays t) k)"
    and e3: "map_of (confusion_paths t1) =
         (\<lambda>k. if k = curr_key_of (pb ! i) (ls ! i)
               then map_option (\<lambda>pl. pl @ (case paths of None \<Rightarrow> [] | Some ps \<Rightarrow> [ps ! i]))
                      (map_of (confusion_paths t) k)
               else map_of (confusion_paths t) k)"
    by blast
  from Cons.prems(2) have r: "\<forall>i \<in> set rest. i < length pb
      \<and> (case paths of None \<Rightarrow> True | Some ps \<Rightarrow> i < length ps)" by simp
  from Cons.IH [OF inv1 r]
  obtain t' where l: "update_loop psg pb ls paths t1 rest = (t', None)" and inv': "tracker_inv t'"
    and f1: "\<And>k. map_of (confusion_cnt t') k =
               map_option (\<lambda>c. c + int (length (filter (\<lambda>i. curr_key_of (pb ! i) (ls ! i) = k) rest)))
                 (map_of (confusion_cnt t1) k)"
    and f2: "\<And>k. map_of (confusion_arrays t') k =
               map_option (\<lambda>a. a @ map (\<lambda>i. psg ! i) (filter (\<lambda>i. curr_key_of (pb ! i) (ls ! i) = k) rest))
                 (map_of (confusion_arrays t1) k)"
    and f3: "\<And>k. map_of (confusion_paths t') k =
               map_option (\<lambda>pl. pl @ (case paths of None \<Rightarrow> []
                                       | Some ps \<Rightarrow> map (\<lambda>i. ps ! i)
                                            (filter (\<lambda>i. curr_key_of (pb ! i) (ls ! i) = k) rest)))
                 (map_of (confusion_paths t1) k)"
    by blast
  from u l have ul: "update_loop psg pb ls paths t (i # rest) = (t', None)" by simp
  have g1: "map_of (confusion_cnt t') k =
               map_option (\<lambda>c. c + int (length (filter (\<lambda>i. curr_key_of (pb ! i) (ls ! i) = k) (i # rest))))
                 (map_of (confusion_cnt t) k)" for k
    by (simp add: f1 e1 option.map_comp comp_def add.assoc)
  have g2: "map_of (confusion_arrays t') k =
               map_option (\<lambda>a. a @ map (\<lambda>i. psg ! i) (filter (\<lambda>i. curr_key_of (pb ! i) (ls ! i) = k) (i # rest)))
                 (map_of (confusion_arrays t) k)" for k
    by (simp add: f2 e2 option.map_comp comp_def)
  have g3: "map_of (confusion_paths t') k =
               map_option (\<lambda>pl. pl @ (case paths of None \<Rightarrow> []
                                       | Some ps \<Rightarrow> map (\<lambda>i. ps ! i)
                                            (filter (\<lambda>i. curr_key_of (pb ! i) (ls ! i) = k) (i # rest))))
                 (map_of (confusion_paths t) k)" for k
    by (cases paths) (simp_all add: f3 e3 option.map_comp comp_def)
  from ul inv' g1 g2 g3 show ?case by blast
qed

lemma update_effect:
  assumes inv: "tracker_inv t"
    and lp: "length labels \<le> length preds"
    and pp: "case paths of None \<Rightarrow> True | Some ps \<Rightarrow> length labels \<le> length ps"
  shows "\<exists>t'. update ops t loss preds labels paths = (t', None) \<and> tracker_inv t'
     \<and> (\<forall>k. map_of (confusion_cnt t') k =
               map_option (\<lambda>c. c + int (length (filter (\<lambda>i. bucket_of ops preds labels i = k)
                                                    [0..<length labels])))
                 (map_of (confusion_cnt t) k))
     \<and> (\<forall>k. map_of (confusion_arrays t') k =
               map_option (\<lambda>a. a @ map (\<lambda>i. torch_sigmoid ops (preds ! i))
                                      (filter (\<lambda>i. bucket_of ops preds labels i = k)
                                         [0..<length labels]))
                 (map_of (confusion_arrays t) k))
     \<and> (\<forall>k. map_of (confusion_paths t') k =
               map_option (\<lambda>pl. pl @ (case paths of None \<Rightarrow> []
                                       | Some ps \<Rightarrow> map (\<lambda>i. ps ! i)
                                            (filter (\<lambda>i. bucket_of ops preds labels i = k)
                                               [0..<length labels])))
                 (map_of (confusion_paths t) k))"
proof -
  define psg where "psg = map (torch_sigmoid ops) preds"
  define pb where "pb = map (\<lambda>p. float_gt p (Finite 0.5)) psg"
  let ?psg = psg
  let ?pb = pb
  let ?t3 = "t\<lparr>batches_cnt := batches_cnt t + 1,
                total_loss := float_add ops (total_loss t) loss,
                avg_loss := float_div ops (float_add ops (total_loss t) loss)
                              (Finite (real_of_int (batches_cnt t + 1)))\<rparr>"
  let ?is = "[0..<length labels]"
  from inv have nz: "batches_cnt t + 1 \<noteq> 0" by (simp add: tracker_inv_def)
  from inv have inv3: "tracker_inv ?t3" by (simp add: tracker_inv_def)
  have u: "update ops t loss preds labels paths = update_loop ?psg ?pb labels paths ?t3 ?is"
    using nz unfolding update_def Let_def psg_def [symmetric] pb_def [symmetric] by simp
  have r: "\<forall>i \<in> set ?is. i < length ?pb
             \<and> (case paths of None \<Rightarrow> True | Some ps \<Rightarrow> i < length ps)"
    using lp pp by (auto simp: pb_def psg_def split: option.splits)
  have key: "curr_key_of (?pb ! i) (labels ! i) = bucket_of ops preds labels i"
    if "i \<in> set ?is" for i
    using that lp by (simp add: bucket_of_def pb_def psg_def)
  have val: "?psg ! i = torch_sigmoid ops (preds ! i)" if "i \<in> set ?is" for i
    using that lp by (simp add: psg_def)
  have fl: "filter (\<lambda>i. curr_key_of (?pb ! i) (labels ! i) = k) ?is
          = filter (\<lambda>i. bucket_of ops preds labels i = k) ?is" for k
    by (rule filter_cong [OF refl]) (simp only: key)
  have mp: "map (\<lambda>i. ?psg ! i) (filter (\<lambda>i. bucket_of ops preds labels i = k) ?is)
          = map (\<lambda>i. torch_sigmoid ops (preds ! i)) (filter (\<lambda>i. bucket_of ops preds labels i = k) ?is)" for k
    by (rule map_cong [OF refl]) (simp add: val)
  from update_loop_effect [OF inv3 r, of ?psg labels]
  obtain t' where l: "update_loop ?psg ?pb labels paths ?t3 ?is = (t', None)"
    and inv': "tracker_inv t'"
    and f1: "\<And>k. map_of (confusion_cnt t') k =
               map_option (\<lambda>c. c + int (length (filter (\<lambda>i. curr_key_of (?pb ! i) (labels ! i) = k) ?is)))
                 (map_of (confusion_cnt ?t3) k)"
    and f2: "\<And>k. map_of (confusion_arrays t') k =
               map_option (\<lambda>a. a @ map (\<lambda>i. ?psg ! i) (filter (\<lambda>i. curr_key_of (?pb ! i) (labels ! i) = k) ?is))
                 (map_of (confusion_arrays ?t3) k)"
    and f3: "\<And>k. map_of (confusion_paths t') k =
               map_option (\<lambda>pl. pl @ (case paths of None \<Rightarrow> []
                                       | Some ps \<Rightarrow> map (\<lambda>i. ps ! i)
                                            (filter (\<lambda>i. curr_key_of (?pb ! i) (labels ! i) = k) ?is)))
                 (map_of (confusion_paths ?t3) k)"
    by blast
  have g1: "\<forall>k. map_of (confusion_cnt t') k =
               map_option (\<lambda>c. c + int (length (filter (\<lambda>i. bucket_of ops preds labels i = k) ?is)))
                 (map_of (confusion_cnt t) k)"
    using f1 by (simp only: fl) simp
  have g2: "\<forall>k. map_of (confusion_arrays t') k =
               map_option (\<lambda>a. a @ map (\<lambda>i. torch_sigmoid ops (preds ! i))
                                      (filter (\<lambda>i. bucket_of ops preds labels i = k) ?is))
                 (map_of (confusion_arrays t) k)"
    using f2 by (simp only: fl mp) simp
  have g3: "\<forall>k. map_of (confusion_paths t') k =
               map_option (\<lambda>pl. pl @ (case paths of None \<Rightarrow> []
                                       | Some ps \<Rightarrow> map (\<lambda>i. ps ! i)
                                            (filter (\<lambda>i. bucket_of ops preds labels i = k) ?is)))
                 (map_of (confusion_paths t) k)"
    using f3 by (simp only: fl) simp
  from u l have "update ops t loss preds labels paths = (t', None)" by simp
  with inv' g1 g2 g3 show ?thesis by blast
qed

lemma bucket_of_iff:
  assumes "l = 0 \<or> l = 1"
  shows "(curr_key_of pb l = ''tp'' \<longleftrightarrow> pb \<and> l = 1)
       \<and> (curr_key_of pb l = ''tn'' \<longleftrightarrow> \<not> pb \<and> l = 0)
       \<and> (curr_key_of pb l = ''fn'' \<longleftrightarrow> \<not> pb \<and> l = 1)
       \<and> (curr_key_of pb l = ''fp'' \<longleftrightarrow> pb \<and> l = 0)"
  using assms by (auto simp: curr_key_of_def)

lemma tracker_inv_init: "tracker_inv MetricTracker_init"
  by (simp add: tracker_inv_def MetricTracker_init_def confusion_keys_def)

lemma demo_update:
  "update demo_ops MetricTracker_init (Finite (1 / 2))
     [Finite 1, Finite (- 1), Finite 3, Finite (- 3)] [1, 0, 0, 1]
     (Some [''a.png'', ''b.png'', ''c.png'', ''d.png'']) =
   (\<lparr> batches_cnt = 1, total_loss = Finite (1 / 2), avg_loss = Finite (1 / 2),
      confusion_cnt = [(''tp'', 1), (''tn'', 1), (''fp'', 1), (''fn'', 1)],
      confusion_arrays = [(''tp'', [Finite (3 / 4)]), (''tn'', [Finite (1 / 4)]),
                          (''fp'', [Finite (7 / 8)]), (''fn'', [Finite (1 / 8)])],
      confusion_paths = [(''tp'', [''a.png'']), (''tn'', [''b.png'']), (''fp'', [''c.png'']),
                         (''fn'', [''d.png''])] \<rparr>, None)"
  by (simp add: update_def update_sample_def MetricTracker_init_def demo_ops_def lift_exact_def
      demo_sigmoid_def curr_key_of_def dict_set_def upt_rec Let_def)

text \<open>
  C2, as the claim states it ("for every call"), fails on a prediction that is nan: its
  sigmoid is nan, \<^verbatim>\<open>preds_sigmoid > 0.5\<close> is false there, so \<^verbatim>\<open>preds_binary[i] == 0\<close> holds
  and a sample with label 0 is counted under 'tn' (with label 1 under 'fn'), although
  \<^verbatim>\<open>sigmoid(preds[i]) <= 0.5\<close> is false.
\<close>

theorem update_assigns_buckets_counterexample:
  "torch_sigmoid demo_ops ([NaN, NaN] ! 0) = NaN
   \<and> bucket_of demo_ops [NaN, NaN] [0, 1] 0 = ''tn''
   \<and> bucket_of demo_ops [NaN, NaN] [0, 1] 1 = ''fn''
   \<and> \<not> float_le (torch_sigmoid demo_ops ([NaN, NaN] ! 0)) (Finite 0.5)
   \<and> \<not> float_le (torch_sigmoid demo_ops ([NaN, NaN] ! 1)) (Finite 0.5)
   \<and> update demo_ops MetricTracker_init (Finite (1 / 2)) [NaN, NaN] [0, 1] None =
       (\<lparr> batches_cnt = 1, total_loss = Finite (1 / 2), avg_loss = Finite (1 / 2),
          confusion_cnt = [(''tp'', 0), (''tn'', 1), (''fp'', 0), (''fn'', 1)],
          confusion_arrays = [(''tp'', []), (''tn'', [NaN]), (''fp'', []), (''fn'', [NaN])],
          confusion_paths = [(''tp'', []), (''tn'', []), (''fp'', []), (''fn'', [])] \<rparr>, None)"
  by (simp add: update_def update_sample_def MetricTracker_init_def demo_ops_def lift_exact_def
      bucket_of_def float_le_def curr_key_of_def dict_set_def upt_rec Let_def)

text \<open>
  C2, amended. For a call of \<^verbatim>\<open>update\<close> on a tracker with the four keys, with labels in
  {0, 1} and with a prediction (and a path, when paths are given) for every label: the
  call does not raise; sample i goes to the one bucket \<open>bucket_of\<close>, which is 'tp' iff
  sigmoid(preds[i]) > 0.5 and labels[i] = 1, 'tn' iff not sigmoid(preds[i]) > 0.5 and
  labels[i] = 0, 'fn' iff not sigmoid(preds[i]) > 0.5 and labels[i] = 1, and 'fp' iff
  sigmoid(preds[i]) > 0.5 and labels[i] = 0, where "not sigmoid(preds[i]) > 0.5" is
  sigmoid(preds[i]) <= 0.5 whenever sigmoid(preds[i]) is not nan; and for every key the
  count grows by the number of samples of that bucket, the array is extended by their
  confidence values sigmoid(preds[i]) in order, and the path list by their paths[i]
  exactly when paths is not None.
\<close>

theorem update_assigns_buckets:
  assumes inv: "tracker_inv t"
    and lab: "\<forall>l \<in> set labels. l = 0 \<or> l = 1"
    and wf: "wf_call (loss, preds, labels, paths)"
  shows "snd (update ops t loss preds labels paths) = None
     \<and> (\<forall>i<length labels.
           (bucket_of ops preds labels i = ''tp''
              \<longleftrightarrow> float_gt (torch_sigmoid ops (preds ! i)) (Finite 0.5) \<and> labels ! i = 1)
         \<and> (bucket_of ops preds labels i = ''tn''
              \<longleftrightarrow> \<not> float_gt (torch_sigmoid ops (preds ! i)) (Finite 0.5) \<and> labels ! i = 0)
         \<and> (bucket_of ops preds labels i = ''fn''
              \<longleftrightarrow> \<not> float_gt (torch_sigmoid ops (preds ! i)) (Finite 0.5) \<and> labels ! i = 1)
         \<and> (bucket_of ops preds labels i = ''fp''
              \<longleftrightarrow> float_gt (torch_sigmoid ops (preds ! i)) (Finite 0.5) \<and> labels ! i = 0)
         \<and> (torch_sigmoid ops (preds ! i) \<noteq> NaN \<longrightarrow>
              (\<not> float_gt (torch_sigmoid ops (preds ! i)) (Finite 0.5)
                 \<longleftrightarrow> float_le (torch_sigmoid ops (preds ! i)) (Finite 0.5))))
     \<and> (\<forall>k. map_of (confusion_cnt (fst (update ops t loss preds labels paths))) k =
               map_option (\<lambda>c. c + int (length (filter (\<lambda>i. bucket_of ops preds labels i = k)
                                                    [0..<length labels])))
                 (map_of (confusion_cnt t) k))
     \<and> (\<forall>k. map_of (confusion_arrays (fst (update ops t loss preds labels paths))) k =
               map_option (\<lambda>a. a @ map (\<lambda>i. torch_sigmoid ops (preds ! i))
                                      (filter (\<lambda>i. bucket_of ops preds labels i = k)
                                         [0..<length labels]))
                 (map_of (confusion_arrays t) k))
     \<and> (\<forall>k. map_of (confusion_paths (fst (update ops t loss preds labels paths))) k =
               map_option (\<lambda>pl. pl @ (case paths of None \<Rightarrow> []
                                       | Some ps \<Rightarrow> map (\<lambda>i. ps ! i)
                                            (filter (\<lambda>i. bucket_of ops preds labels i = k)
                                               [0..<length labels])))
                 (map_of (confusion_paths t) k))"
proof -
  from wf have lp: "length labels \<le> length preds"
    and pp: "case paths of None \<Rightarrow> True | Some ps \<Rightarrow> length labels \<le> length ps"
    by simp_all
  from update_effect [OF inv lp pp, of ops loss]
  obtain t' where u: "update ops t loss preds labels paths = (t', None)"
    and g1: "\<forall>k. map_of (confusion_cnt t') k =
               map_option (\<lambda>c. c + int (length (filter (\<lambda>i. bucket_of ops preds labels i = k)
                                                    [0..<length labels])))
                 (map_of (confusion_cnt t) k)"
    and g2: "\<forall>k. map_of (confusion_arrays t') k =
               map_option (\<lambda>a. a @ map (\<lambda>i. torch_sigmoid ops (preds ! i))
                                      (filter (\<lambda>i. bucket_of ops preds labels i = k)
                                         [0..<length labels]))
                 (map_of (confusion_arrays t) k)"
    and g3: "\<forall>k. map_of (confusion_paths t') k =
               map_option (\<lambda>pl. pl @ (case paths of None \<Rightarrow> []
                                       | Some ps \<Rightarrow> map (\<lambda>i. ps ! i)
                                            (filter (\<lambda>i. bucket_of ops preds labels i = k)
                                               [0..<length labels])))
                 (map_of (confusion_paths t) k)"
    by blast
  have b: "\<forall>i<length labels.
           (bucket_of ops preds labels i = ''tp''
              \<longleftrightarrow> float_gt (torch_sigmoid ops (preds ! i)) (Finite 0.5) \<and> labels ! i = 1)
         \<and> (bucket_of ops preds labels i = ''tn''
              \<longleftrightarrow> \<not> float_gt (torch_sigmoid ops (preds ! i)) (Finite 0.5) \<and> labels ! i = 0)
         \<and> (bucket_of ops preds labels i = ''fn''
              \<longleftrightarrow> \<not> float_gt (torch_sigmoid ops (preds ! i)) (Finite 0.5) \<and> labels ! i = 1)
         \<and> (bucket_of ops preds labels i = ''fp''
              \<longleftrightarrow> float_gt (torch_sigmoid ops (preds ! i)) (Finite 0.5) \<and> labels ! i = 0)
         \<and> (torch_sigmoid ops (preds ! i) \<noteq> NaN \<longrightarrow>
              (\<not> float_gt (torch_sigmoid ops (preds ! i)) (Finite 0.5)
                 \<longleftrightarrow> float_le (torch_sigmoid ops (preds ! i)) (Finite 0.5)))"
  proof (intro allI impI)
    fix i assume "i < length labels"
    with lab have "labels ! i = 0 \<or> labels ! i = 1" by simp
    note k = bucket_of_iff [OF this, of "float_gt (torch_sigmoid ops (preds ! i)) (Finite 0.5)"]
    have n: "torch_sigmoid ops (preds ! i) \<noteq> NaN \<longrightarrow>
              (\<not> float_gt (torch_sigmoid ops (preds ! i)) (Finite 0.5)
                 \<longleftrightarrow> float_le (torch_sigmoid ops (preds ! i)) (Finite 0.5))"
      unfolding float_le_def by blast
    from k n
    show "(bucket_of ops preds labels i = ''tp''
              \<longleftrightarrow> float_gt (torch_sigmoid ops (preds ! i)) (Finite 0.5) \<and> labels ! i = 1)
         \<and> (bucket_of ops preds labels i = ''tn''
              \<longleftrightarrow> \<not> float_gt (torch_sigmoid ops (preds ! i)) (Finite 0.5) \<and> labels ! i = 0)
         \<and> (bucket_of ops preds labels i = ''fn''
              \<longleftrightarrow> \<not> float_gt (torch_sigmoid ops (preds ! i)) (Finite 0.5) \<and> labels ! i = 1)
         \<and> (bucket_of ops preds labels i = ''fp''
              \<longleftrightarrow> float_gt (torch_sigmoid ops (preds ! i)) (Finite 0.5) \<and> labels ! i = 0)
         \<and> (torch_sigmoid ops (preds ! i) \<noteq> NaN \<longrightarrow>
              (\<not> float_gt (torch_sigmoid ops (preds ! i)) (Finite 0.5)
                 \<longleftrightarrow> float_le (torch_sigmoid ops (preds ! i)) (Finite 0.5)))"
      unfolding bucket_of_def by blast
  qed
  have s: "snd (update ops t loss preds labels paths) = None" by (simp add: u)
  have f: "fst (update ops t loss preds labels paths) = t'" by (simp add: u)
  show ?thesis
    unfolding f by (rule conjI [OF s conjI [OF b conjI [OF g1 conjI [OF g2 g3]]]])
qed

theorem update_assigns_buckets_witness:
  "tracker_inv MetricTracker_init
   \<and> wf_call (Finite (1 / 2), [Finite 1, Finite (- 1), Finite 3, Finite (- 3)], [1, 0, 0, 1],
              Some [''a.png'', ''b.png'', ''c.png'', ''d.png''])
   \<and> update demo_ops MetricTracker_init (Finite (1 / 2))
       [Finite 1, Finite (- 1), Finite 3, Finite (- 3)] [1, 0, 0, 1]
       (Some [''a.png'', ''b.png'', ''c.png'', ''d.png'']) =
   (\<lparr> batches_cnt = 1, total_loss = Finite (1 / 2), avg_loss = Finite (1 / 2),
      confusion_cnt = [(''tp'', 1), (''tn'', 1), (''fp'', 1), (''fn'', 1)],
      confusion_arrays = [(''tp'', [Finite (3 / 4)]), (''tn'', [Finite (1 / 4)]),
                          (''fp'', [Finite (7 / 8)]), (''fn'', [Finite (1 / 8)])],
      confusion_paths = [(''tp'', [''a.png'']), (''tn'', [''b.png'']), (''fp'', [''c.png'']),
                         (''fn'', [''d.png''])] \<rparr>, None)
   \<and> bucket_of demo_ops [Finite 1, Finite (- 1), Finite 3, Finite (- 3)] [1, 0, 0, 1] 2 = ''fp''
   \<and> float_gt (torch_sigmoid demo_ops (Finite 3)) (Finite 0.5)"
  using update_assigns_buckets [OF tracker_inv_init, of "[1, 0, 0, 1]" "Finite (1 / 2)"
      "[Finite 1, Finite (- 1), Finite 3, Finite (- 3)]"
      "Some [''a.png'', ''b.png'', ''c.png'', ''d.png'']" demo_ops]
  by (simp add: tracker_inv_init demo_update)
     (simp add: bucket_of_def curr_key_of_def demo_ops_def demo_sigmoid_def)

section \<open>The tracker invariant\<close>

lemma keys_form:
  "map fst al = confusion_keys \<Longrightarrow>
     \<exists>a b c d. al = [(''tp'', a), (''tn'', b), (''fp'', c), (''fn'', d)]"
  by (auto simp: confusion_keys_def map_eq_Cons_conv)

lemma four_buckets:
  "\<forall>i \<in> set is. f i \<in> set confusion_keys \<Longrightarrow>
     length (filter (\<lambda>i. f i = ''tp'') is) + length (filter (\<lambda>i. f i = ''tn'') is)
       + length (filter (\<lambda>i. f i = ''fp'') is) + length (filter (\<lambda>i. f i = ''fn'') is)
     = length is"
  by (induction "is") (auto simp: confusion_keys_def)

lemma update_total:
  assumes inv: "tracker_inv t" and inv': "tracker_inv t'"
    and g: "\<forall>k. map_of (confusion_cnt t') k =
               map_option (\<lambda>c. c + int (length (filter (\<lambda>i. f i = k) is)))
                 (map_of (confusion_cnt t) k)"
    and ks: "\<forall>i \<in> set is. f i \<in> set confusion_keys"
  shows "sum_list (map snd (confusion_cnt t')) = sum_list (map snd (confusion_cnt t)) + int (length is)"
proof -
  from inv keys_form obtain a b c d where
    al: "confusion_cnt t = [(''tp'', a), (''tn'', b), (''fp'', c), (''fn'', d)]"
    unfolding tracker_inv_def by blast
  from inv' keys_form obtain a' b' c' d' where
    al': "confusion_cnt t' = [(''tp'', a'), (''tn'', b'), (''fp'', c'), (''fn'', d')]"
    unfolding tracker_inv_def by blast
  from g [rule_format, of "''tp''"] have a: "a' = a + int (length (filter (\<lambda>i. f i = ''tp'') is))"
    by (simp add: al al')
  from g [rule_format, of "''tn''"] have b: "b' = b + int (length (filter (\<lambda>i. f i = ''tn'') is))"
    by (simp add: al al')
  from g [rule_format, of "''fp''"] have c: "c' = c + int (length (filter (\<lambda>i. f i = ''fp'') is))"
    by (simp add: al al')
  from g [rule_format, of "''fn''"] have d: "d' = d + int (length (filter (\<lambda>i. f i = ''fn'') is))"
    by (simp add: al al')
  from four_buckets [OF ks] a b c d show ?thesis
    by (simp add: al al')
qed

lemma bucket_in_keys: "bucket_of ops preds labels i \<in> set confusion_keys"
  by (simp add: bucket_of_def curr_key_in_keys)

lemma updates_invariant:
  assumes inv: "tracker_inv t"
    and wf: "\<forall>c \<in> set cs. wf_call c"
    and ca: "\<forall>k. map_of (confusion_cnt t) k
               = map_option (\<lambda>a. int (length a)) (map_of (confusion_arrays t) k)"
  shows "tracker_inv (updates ops t cs)
     \<and> (\<forall>k. map_of (confusion_cnt (updates ops t cs)) k
               = map_option (\<lambda>a. int (length a)) (map_of (confusion_arrays (updates ops t cs)) k))
     \<and> ((\<forall>k. map_of (confusion_cnt t) k
               = map_option (\<lambda>pl. int (length pl)) (map_of (confusion_paths t) k))
          \<and> (\<forall>c \<in> set cs. call_paths c \<noteq> None) \<longrightarrow>
         (\<forall>k. map_of (confusion_cnt (updates ops t cs)) k
               = map_option (\<lambda>pl. int (length pl)) (map_of (confusion_paths (updates ops t cs)) k)))
     \<and> sum_list (map snd (confusion_cnt (updates ops t cs)))
         = sum_list (map snd (confusion_cnt t)) + int (sum_list (map (\<lambda>c. length (call_labels c)) cs))"
  using assms
proof (induction cs arbitrary: t)
  case Nil
  then show ?case by simp
next
  case (Cons c cs)
  obtain loss preds labels paths where c: "c = (loss, preds, labels, paths)"
    by (cases c) auto
  from Cons.prems(2) c have lp: "length labels \<le> length preds"
    and pp: "case paths of None \<Rightarrow> True | Some ps \<Rightarrow> length labels \<le> length ps"
    by simp_all
  let ?is = "[0..<length labels]"
  let ?n = "\<lambda>k. length (filter (\<lambda>i. bucket_of ops preds labels i = k) ?is)"
  from update_effect [OF Cons.prems(1) lp pp, of ops loss]
  obtain t' where u: "update ops t loss preds labels paths = (t', None)"
    and inv': "tracker_inv t'"
    and g1: "\<forall>k. map_of (confusion_cnt t') k =
               map_option (\<lambda>c. c + int (?n k)) (map_of (confusion_cnt t) k)"
    and g2: "\<forall>k. map_of (confusion_arrays t') k =
               map_option (\<lambda>a. a @ map (\<lambda>i. torch_sigmoid ops (preds ! i))
                                      (filter (\<lambda>i. bucket_of ops preds labels i = k) ?is))
                 (map_of (confusion_arrays t) k)"
    and g3: "\<forall>k. map_of (confusion_paths t') k =
               map_option (\<lambda>pl. pl @ (case paths of None \<Rightarrow> []
                                       | Some ps \<Rightarrow> map (\<lambda>i. ps ! i)
                                            (filter (\<lambda>i. bucket_of ops preds labels i = k) ?is)))
                 (map_of (confusion_paths t) k)"
    by blast
  have ca': "\<forall>k. map_of (confusion_cnt t') k
               = map_option (\<lambda>a. int (length a)) (map_of (confusion_arrays t') k)"
    using g1 g2 Cons.prems(3) by (simp add: option.map_comp comp_def)
  have tot: "sum_list (map snd (confusion_cnt t'))
               = sum_list (map snd (confusion_cnt t)) + int (length labels)"
    using update_total [OF Cons.prems(1) inv' g1] bucket_in_keys by simp
  from Cons.prems(2) have wf': "\<forall>c \<in> set cs. wf_call c" by simp
  note ih = Cons.IH [OF inv' wf' ca']
  have step: "updates ops t (c # cs) = updates ops t' cs" by (simp add: c u)
  have cp': "\<forall>k. map_of (confusion_cnt t') k
               = map_option (\<lambda>pl. int (length pl)) (map_of (confusion_paths t') k)"
    if "\<forall>k. map_of (confusion_cnt t) k
               = map_option (\<lambda>pl. int (length pl)) (map_of (confusion_paths t) k)"
      and "paths \<noteq> None"
    using that g1 g3 by (auto simp: option.map_comp comp_def)
  from ih have i1: "tracker_inv (updates ops t' cs)"
    and i2: "\<forall>k. map_of (confusion_cnt (updates ops t' cs)) k
               = map_option (\<lambda>a. int (length a)) (map_of (confusion_arrays (updates ops t' cs)) k)"
    and i3: "(\<forall>k. map_of (confusion_cnt t') k
               = map_option (\<lambda>pl. int (length pl)) (map_of (confusion_paths t') k))
          \<and> (\<forall>c \<in> set cs. call_paths c \<noteq> None) \<longrightarrow>
         (\<forall>k. map_of (confusion_cnt (updates ops t' cs)) k
               = map_option (\<lambda>pl. int (length pl)) (map_of (confusion_paths (updates ops t' cs)) k))"
    and i4: "sum_list (map snd (confusion_cnt (updates ops t' cs)))
         = sum_list (map snd (confusion_cnt t')) + int (sum_list (map (\<lambda>c. length (call_labels c)) cs))"
    by blast+
  have j3: "(\<forall>k. map_of (confusion_cnt t) k
               = map_option (\<lambda>pl. int (length pl)) (map_of (confusion_paths t) k))
          \<and> (\<forall>c \<in> set (c # cs). call_paths c \<noteq> None) \<longrightarrow>
         (\<forall>k. map_of (confusion_cnt (updates ops t' cs)) k
               = map_option (\<lambda>pl. int (length pl)) (map_of (confusion_paths (updates ops t' cs)) k))"
  proof
    assume a: "(\<forall>k. map_of (confusion_cnt t) k
               = map_option (\<lambda>pl. int (length pl)) (map_of (confusion_paths t) k))
          \<and> (\<forall>c \<in> set (c # cs). call_paths c \<noteq> None)"
    then have "paths \<noteq> None" by (simp add: c)
    with a cp' have "\<forall>k. map_of (confusion_cnt t') k
               = map_option (\<lambda>pl. int (length pl)) (map_of (confusion_paths t') k)" by blast
    moreover from a have "\<forall>c \<in> set cs. call_paths c \<noteq> None" by simp
    ultimately show "\<forall>k. map_of (confusion_cnt (updates ops t' cs)) k
               = map_option (\<lambda>pl. int (length pl)) (map_of (confusion_paths (updates ops t' cs)) k)"
      using i3 by blast
  qed
  have j4: "sum_list (map snd (confusion_cnt (updates ops t' cs)))
         = sum_list (map snd (confusion_cnt t))
           + int (sum_list (map (\<lambda>c. length (call_labels c)) (c # cs)))"
    using i4 tot by (simp add: c)
  show ?case
    unfolding step by (rule conjI [OF i1 conjI [OF i2 conjI [OF j3 j4]]])
qed

lemma update_sample_any:
  assumes inv: "tracker_inv t"
    and ca: "\<forall>k. map_of (confusion_cnt t) k
               = map_option (\<lambda>a. int (length a)) (map_of (confusion_arrays t) k)"
    and u: "update_sample psg pb ls paths t i = (t', e)"
  shows "tracker_inv t'
     \<and> (\<forall>k. map_of (confusion_cnt t') k
               = map_option (\<lambda>a. int (length a)) (map_of (confusion_arrays t') k))"
proof (cases "length pb \<le> i")
  case True
  with u have "t' = t" by (simp add: update_sample_def)
  with inv ca show ?thesis by simp
next
  case False
  let ?key = "curr_key_of (pb ! i) (ls ! i)"
  have kin: "?key \<in> set confusion_keys" by (rule curr_key_in_keys)
  from inv have k1: "map fst (confusion_cnt t) = confusion_keys"
    and k2: "map fst (confusion_arrays t) = confusion_keys"
    and k3: "map fst (confusion_paths t) = confusion_keys"
    and bc: "0 \<le> batches_cnt t"
    by (simp_all add: tracker_inv_def)
  from keys_lookup [OF k1 kin] obtain c where c: "map_of (confusion_cnt t) ?key = Some c" ..
  from keys_lookup [OF k2 kin] obtain arr where a: "map_of (confusion_arrays t) ?key = Some arr" ..
  from keys_lookup [OF k3 kin] obtain pl where l: "map_of (confusion_paths t) ?key = Some pl" ..
  from ca c a have ce: "c = int (length arr)" by simp
  from kin k1 have m1: "?key \<in> set (map fst (confusion_cnt t))" by simp
  from kin k2 have m2: "?key \<in> set (map fst (confusion_arrays t))" by simp
  from kin k3 have m3: "?key \<in> set (map fst (confusion_paths t))" by simp
  let ?t2 = "t\<lparr>confusion_cnt := dict_set (confusion_cnt t) ?key (c + 1),
               confusion_arrays := dict_set (confusion_arrays t) ?key (arr @ [psg ! i])\<rparr>"
  have inv2: "tracker_inv ?t2"
    using bc k1 k2 k3 m1 m2 by (simp add: tracker_inv_def dict_set_keys)
  have ca2: "\<forall>k. map_of (confusion_cnt ?t2) k
               = map_option (\<lambda>a. int (length a)) (map_of (confusion_arrays ?t2) k)"
    using ca ce by (simp add: dict_set_map_of)
  have "t' = ?t2 \<or> (\<exists>ps. t' = ?t2\<lparr>confusion_paths := dict_set (confusion_paths ?t2) ?key ps\<rparr>)"
    using u False c a l
    by (auto simp: update_sample_def Let_def split: option.splits if_splits)
  then show ?thesis
  proof
    assume "t' = ?t2"
    with inv2 ca2 show ?thesis by simp
  next
    assume "\<exists>ps. t' = ?t2\<lparr>confusion_paths := dict_set (confusion_paths ?t2) ?key ps\<rparr>"
    then obtain ps where t': "t' = ?t2\<lparr>confusion_paths := dict_set (confusion_paths ?t2) ?key ps\<rparr>" ..
    have "tracker_inv t'"
      using bc k1 k2 k3 m1 m2 m3 by (simp add: t' tracker_inv_def dict_set_keys)
    moreover have "\<forall>k. map_of (confusion_cnt t') k
               = map_option (\<lambda>a. int (length a)) (map_of (confusion_arrays t') k)"
      using ca2 by (simp add: t')
    ultimately show ?thesis by simp
  qed
qed

lemma update_loop_any:
  assumes "tracker_inv t"
    and "\<forall>k. map_of (confusion_cnt t) k
               = map_option (\<lambda>a. int (length a)) (map_of (confusion_arrays t) k)"
    and "update_loop psg pb ls paths t is = (t', e)"
  shows "tracker_inv t'
     \<and> (\<forall>k. map_of (confusion_cnt t') k
               = map_option (\<lambda>a. int (length a)) (map_of (confusion_arrays t') k))"
  using assms
proof (induction "is" arbitrary: t)
  case Nil
  then show ?case by simp
next
  case (Cons i rest)
  obtain t1 e1 where s: "update_sample psg pb ls paths t i = (t1, e1)"
    by (cases "update_sample psg pb ls paths t i")
  note a = update_sample_any [OF Cons.prems(1,2) s]
  show ?case
  proof (cases e1)
    case None
    with Cons.prems(3) s have "update_loop psg pb ls paths t1 rest = (t', e)" by simp
    with Cons.IH a show ?thesis by blast
  next
    case (Some x)
    with Cons.prems(3) s have "t' = t1" by simp
    with a show ?thesis by simp
  qed
qed

lemma update_any:
  assumes inv: "tracker_inv t"
    and ca: "\<forall>k. map_of (confusion_cnt t) k
               = map_option (\<lambda>a. int (length a)) (map_of (confusion_arrays t) k)"
  shows "tracker_inv (fst (update ops t loss preds labels paths))
     \<and> (\<forall>k. map_of (confusion_cnt (fst (update ops t loss preds labels paths))) k
               = map_option (\<lambda>a. int (length a))
                   (map_of (confusion_arrays (fst (update ops t loss preds labels paths))) k))"
proof -
  let ?t3 = "t\<lparr>batches_cnt := batches_cnt t + 1,
                total_loss := float_add ops (total_loss t) loss,
                avg_loss := float_div ops (float_add ops (total_loss t) loss)
                              (Finite (real_of_int (batches_cnt t + 1)))\<rparr>"
  from inv have nz: "batches_cnt t + 1 \<noteq> 0" by (simp add: tracker_inv_def)
  from inv have inv3: "tracker_inv ?t3" by (simp add: tracker_inv_def)
  from ca have ca3: "\<forall>k. map_of (confusion_cnt ?t3) k
               = map_option (\<lambda>a. int (length a)) (map_of (confusion_arrays ?t3) k)" by simp
  from nz have "\<exists>ps pb. update ops t loss preds labels paths
               = update_loop ps pb labels paths ?t3 [0..<length labels]"
    unfolding update_def Let_def by (intro exI) simp
  then obtain ps pb where
    u: "update ops t loss preds labels paths = update_loop ps pb labels paths ?t3 [0..<length labels]"
    by blast
  let ?r = "update_loop ps pb labels paths ?t3 [0..<length labels]"
  have "?r = (fst ?r, snd ?r)" by simp
  from update_loop_any [OF inv3 ca3 this] u show ?thesis by simp
qed

lemma updates_any:
  assumes "tracker_inv t"
    and "\<forall>k. map_of (confusion_cnt t) k
               = map_option (\<lambda>a. int (length a)) (map_of (confusion_arrays t) k)"
  shows "tracker_inv (updates ops t cs)
     \<and> (\<forall>k. map_of (confusion_cnt (updates ops t cs)) k
               = map_option (\<lambda>a. int (length a)) (map_of (confusion_arrays (updates ops t cs)) k))"
  using assms
proof (induction cs arbitrary: t)
  case Nil
  then show ?case by simp
next
  case (Cons c cs)
  obtain loss preds labels paths where c: "c = (loss, preds, labels, paths)"
    by (cases c) auto
  from update_any [OF Cons.prems, of ops loss preds labels paths] Cons.IH show ?case
    by (simp add: c)
qed

text \<open>
  C9, as the claim states it ("every reachable state"), fails for the path lists: the
  tracker is written sample by sample, so a call that supplies a path list shorter than
  the labels raises \<^verbatim>\<open>IndexError\<close> after it has counted the sample and appended its
  confidence value; the tracker it leaves behind has the count 1 and the path list empty
  under 'tp'.
\<close>

theorem tracker_counts_invariant_counterexample:
  "update demo_ops MetricTracker_init (Finite (1 / 2)) [Finite 1] [1] (Some []) =
     (\<lparr> batches_cnt = 1, total_loss = Finite (1 / 2), avg_loss = Finite (1 / 2),
        confusion_cnt = [(''tp'', 1), (''tn'', 0), (''fp'', 0), (''fn'', 0)],
        confusion_arrays = [(''tp'', [Finite (3 / 4)]), (''tn'', []), (''fp'', []), (''fn'', [])],
        confusion_paths = [(''tp'', []), (''tn'', []), (''fp'', []), (''fn'', [])] \<rparr>,
      Some IndexError)
   \<and> call_paths (Finite (1 / 2), [Finite 1], [1], Some []) \<noteq> None
   \<and> map_of (confusion_cnt (updates demo_ops MetricTracker_init
                [(Finite (1 / 2), [Finite 1], [1], Some [])])) ''tp'' = Some 1
   \<and> map_of (confusion_paths (updates demo_ops MetricTracker_init
                [(Finite (1 / 2), [Finite 1], [1], Some [])])) ''tp'' = Some []
   \<and> (1::int) \<noteq> int (length ([] :: string list))"
  by (simp add: update_def update_sample_def MetricTracker_init_def demo_ops_def lift_exact_def
      demo_sigmoid_def curr_key_of_def dict_set_def Let_def)

text \<open>
  C9, amended. In every tracker state reached from a fresh tracker by calls of \<^verbatim>\<open>update\<close>
  (also calls that raised in the per-sample loop), for each of the four keys the count
  equals the length of the array. When the arguments of every call were parallel (a
  prediction, and a path when paths are given, for every label, so that every call
  returned), the four counts sum to the number of samples of all the calls, and, when
  every call supplied paths, each count also equals the length of the path list.
\<close>

theorem tracker_counts_invariant:
  "tracker_inv (updates ops MetricTracker_init cs)
   \<and> (\<forall>k \<in> set confusion_keys. \<exists>arr.
         map_of (confusion_arrays (updates ops MetricTracker_init cs)) k = Some arr
       \<and> map_of (confusion_cnt (updates ops MetricTracker_init cs)) k = Some (int (length arr)))
   \<and> ((\<forall>c \<in> set cs. wf_call c) \<longrightarrow>
         sum_list (map snd (confusion_cnt (updates ops MetricTracker_init cs)))
           = int (sum_list (map (\<lambda>c. length (call_labels c)) cs))
       \<and> ((\<forall>c \<in> set cs. call_paths c \<noteq> None) \<longrightarrow>
            (\<forall>k \<in> set confusion_keys. \<exists>pl.
               map_of (confusion_paths (updates ops MetricTracker_init cs)) k = Some pl
             \<and> map_of (confusion_cnt (updates ops MetricTracker_init cs)) k = Some (int (length pl)))))"
proof -
  let ?T = "updates ops MetricTracker_init cs"
  have ca: "\<forall>k. map_of (confusion_cnt MetricTracker_init) k
               = map_option (\<lambda>a. int (length a)) (map_of (confusion_arrays MetricTracker_init) k)"
    by (simp add: MetricTracker_init_def)
  have cp: "\<forall>k. map_of (confusion_cnt MetricTracker_init) k
               = map_option (\<lambda>pl. int (length pl)) (map_of (confusion_paths MetricTracker_init) k)"
    by (simp add: MetricTracker_init_def)
  have z: "sum_list (map snd (confusion_cnt MetricTracker_init)) = 0"
    by (simp add: MetricTracker_init_def)
  from updates_any [OF tracker_inv_init ca, of ops cs]
  have inv: "tracker_inv ?T"
    and a: "\<forall>k. map_of (confusion_cnt ?T) k
               = map_option (\<lambda>a. int (length a)) (map_of (confusion_arrays ?T) k)"
    by blast+
  from inv have k2: "map fst (confusion_arrays ?T) = confusion_keys"
    and k3: "map fst (confusion_paths ?T) = confusion_keys"
    by (simp_all add: tracker_inv_def)
  have b: "\<forall>k \<in> set confusion_keys. \<exists>arr.
         map_of (confusion_arrays ?T) k = Some arr
       \<and> map_of (confusion_cnt ?T) k = Some (int (length arr))"
  proof
    fix k assume k: "k \<in> set confusion_keys"
    from keys_lookup [OF k2 k] obtain arr where ar: "map_of (confusion_arrays ?T) k = Some arr" ..
    with a show "\<exists>arr. map_of (confusion_arrays ?T) k = Some arr
       \<and> map_of (confusion_cnt ?T) k = Some (int (length arr))" by simp
  qed
  have w: "(\<forall>c \<in> set cs. wf_call c) \<longrightarrow>
         sum_list (map snd (confusion_cnt ?T))
           = int (sum_list (map (\<lambda>c. length (call_labels c)) cs))
       \<and> ((\<forall>c \<in> set cs. call_paths c \<noteq> None) \<longrightarrow>
            (\<forall>k \<in> set confusion_keys. \<exists>pl.
               map_of (confusion_paths ?T) k = Some pl
             \<and> map_of (confusion_cnt ?T) k = Some (int (length pl))))"
  proof
    assume wf: "\<forall>c \<in> set cs. wf_call c"
    note ui = updates_invariant [OF tracker_inv_init wf ca, of ops]
    from ui cp have p: "(\<forall>c \<in> set cs. call_paths c \<noteq> None) \<longrightarrow>
         (\<forall>k. map_of (confusion_cnt ?T) k
               = map_option (\<lambda>pl. int (length pl)) (map_of (confusion_paths ?T) k))"
      by blast
    from ui z have s: "sum_list (map snd (confusion_cnt ?T))
         = int (sum_list (map (\<lambda>c. length (call_labels c)) cs))"
      by simp
    have q: "(\<forall>c \<in> set cs. call_paths c \<noteq> None) \<longrightarrow>
            (\<forall>k \<in> set confusion_keys. \<exists>pl.
               map_of (confusion_paths ?T) k = Some pl
             \<and> map_of (confusion_cnt ?T) k = Some (int (length pl)))"
    proof (intro impI ballI)
      fix k assume ap: "\<forall>c \<in> set cs. call_paths c \<noteq> None" and k: "k \<in> set confusion_keys"
      from keys_lookup [OF k3 k] obtain pl where pl: "map_of (confusion_paths ?T) k = Some pl" ..
      with p ap show "\<exists>pl. map_of (confusion_paths ?T) k = Some pl
             \<and> map_of (confusion_cnt ?T) k = Some (int (length pl))" by simp
    qed
    from s q show "sum_list (map snd (confusion_cnt ?T))
           = int (sum_list (map (\<lambda>c. length (call_labels c)) cs))
       \<and> ((\<forall>c \<in> set cs. call_paths c \<noteq> None) \<longrightarrow>
            (\<forall>k \<in> set confusion_keys. \<exists>pl.
               map_of (confusion_paths ?T) k = Some pl
             \<and> map_of (confusion_cnt ?T) k = Some (int (length pl))))" by (rule conjI)
  qed
  show ?thesis by (rule conjI [OF inv conjI [OF b w]])
qed

theorem tracker_counts_invariant_witness:
  "wf_call demo_call
   \<and> call_paths demo_call \<noteq> None
   \<and> tracker_inv (updates demo_ops MetricTracker_init [demo_call])
   \<and> sum_list (map snd (confusion_cnt (updates demo_ops MetricTracker_init [demo_call]))) = 4
   \<and> confusion_cnt (updates demo_ops MetricTracker_init [demo_call])
       = [(''tp'', 1), (''tn'', 1), (''fp'', 1), (''fn'', 1)]
   \<and> confusion_paths (updates demo_ops MetricTracker_init [demo_call])
       = [(''tp'', [''a.png'']), (''tn'', [''b.png'']), (''fp'', [''c.png'']), (''fn'', [''d.png''])]"
  using tracker_counts_invariant [of demo_ops "[demo_call]"]
  by (simp add: demo_call_def demo_update)

end
